theory Spec2Isabelle
  imports Complex_Main "HOL-Library.Sublist" "HOL-Library.Char_ord" "HOL-Library.List_Lexorder"
begin

section \<open>Fine tuning a pre-trained CNN: the notebook's own code\<close>

text \<open>
  The development embeds the code cells of
  \<^verbatim>\<open>labs/04_conv_nets/Fine_Tuning_Deep_CNNs_with_GPU.ipynb\<close>.
  The notebook is glue around \<^verbatim>\<open>os\<close>, \<^verbatim>\<open>shutil\<close>, \<^verbatim>\<open>numpy\<close> and Keras; what
  those libraries do is the environment of the code and is modelled next to the cell that
  calls it, with the library function named in the text. Exceptions are values of
  \<open>py_error\<close>; a cell that raises returns \<open>Inl\<close>.
\<close>

datatype py_error =
    FileNotFoundError
  | FileExistsError
  | NotADirectoryError
  | IsADirectoryError
  | OSError
  | ShutilError
  | ValueError
  | ZeroDivisionError

subsection \<open>Validation accuracy (the val\_flow / all\_correct cell)\<close>

text \<open>
  \<^verbatim>\<open>batch_size = 50\<close> is a notebook global; the functions below take the batch size as
  an argument and the notebook runs them at \<open>batch_size\<close>.
\<close>

definition batch_size :: nat where
  "batch_size = 50"

text \<open>
  Keras' directory iterator with \<^verbatim>\<open>shuffle=False\<close>: the examples are served in the fixed
  order of the directory listing. Its state is the batch index. One call of \<^verbatim>\<open>next\<close>:
  \<^verbatim>\<open>
    current_index = (self.batch_index * batch_size) % n
    if n > current_index + batch_size:
        current_batch_size = batch_size
        self.batch_index += 1
    else:
        current_batch_size = n - current_index
        self.batch_index = 0
    yield index_array[current_index: current_index + current_batch_size]
  \<close>
  so the last batch of a pass is the short one and the iterator then starts over.
\<close>

definition flow_next :: "nat \<Rightarrow> 'a list \<Rightarrow> nat \<Rightarrow> 'a list \<times> nat" where
  "flow_next B xs bi =
     (let n = length xs;
          current_index = (bi * B) mod n
      in if n > current_index + B
         then (take B (drop current_index xs), bi + 1)
         else (take (n - current_index) (drop current_index xs), 0))"

text \<open>
  \<^verbatim>\<open>correct = list((predictions > 0.5) == y)\<close>: the comparison gives a boolean, which
  numpy compares with the float label as 1.0 or 0.0. Predictions and labels are finite
  floats; they are rationals here, and the comparison with 0.5 is exact on both sides.
\<close>

definition correct :: "rat \<Rightarrow> rat \<Rightarrow> bool" where
  "correct prediction y = ((if prediction > 1 / 2 then 1 else 0) = y)"

text \<open>
  The loop \<^verbatim>\<open>for i, (X, y) in zip(range(val_flow.n // batch_size), val_flow)\<close>:
  \<open>k\<close> is the number of iterations left, \<open>bi\<close> the iterator's state and
  \<open>all_correct\<close> the accumulator. An example is a pair of an image and its label;
  \<open>predict\<close> is the composed model on one image.
\<close>

fun val_loop ::
  "('x \<Rightarrow> rat) \<Rightarrow> nat \<Rightarrow> ('x \<times> rat) list \<Rightarrow> nat \<Rightarrow> nat \<Rightarrow> bool list \<Rightarrow> bool list" where
  "val_loop predict B xs 0 bi all_correct = all_correct"
| "val_loop predict B xs (Suc k) bi all_correct =
     (let (batch, bi') = flow_next B xs bi;
          predictions = map (predict \<circ> fst) batch;
          y = map snd batch
      in val_loop predict B xs k bi' (all_correct @ map2 correct predictions y))"

text \<open>
  \<^verbatim>\<open>np.mean(all_correct)\<close>: the number of \<^verbatim>\<open>True\<close> entries over the length; on the
  empty list numpy returns nan, which is \<open>None\<close> here. The quotient is the exact one;
  numpy rounds it to the nearest double.
\<close>

definition np_mean :: "bool list \<Rightarrow> rat option" where
  "np_mean bs =
     (if bs = [] then None
      else Some (of_nat (length (filter id bs)) / of_nat (length bs)))"

text \<open>The whole cell; \<^verbatim>\<open>val_flow.n // batch_size\<close> raises on a zero batch size.\<close>

definition validation_accuracy ::
  "('x \<Rightarrow> rat) \<Rightarrow> nat \<Rightarrow> ('x \<times> rat) list \<Rightarrow> py_error + rat option" where
  "validation_accuracy predict B xs =
     (if B = 0 then Inl ZeroDivisionError
      else Inr (np_mean (val_loop predict B xs (length xs div B) 0 [])))"

text \<open>What the claim asks for: the mean of the correctness of every example.\<close>

definition accuracy_of_all :: "('x \<Rightarrow> rat) \<Rightarrow> ('x \<times> rat) list \<Rightarrow> rat option" where
  "accuracy_of_all predict xs = np_mean (map (\<lambda>(x, y). correct (predict x) y) xs)"

subsection \<open>The preprocessing function handed to the image generators\<close>

text \<open>
  An array is its shape and its elements in row-major order; \<^verbatim>\<open>x.ndim\<close> is the length
  of the shape and \<^verbatim>\<open>x[np.newaxis, :, :, :]\<close> on a 3-dimensional array puts an axis of
  length one in front of the same elements.
\<close>

record 'a ndarray =
  shape :: "nat list"
  elements :: "'a list"

definition ndim :: "'a ndarray \<Rightarrow> nat" where
  "ndim x = length (shape x)"

definition newaxis :: "'a ndarray \<Rightarrow> 'a ndarray" where
  "newaxis x = x\<lparr>shape := 1 # shape x\<rparr>"

text \<open>
  \<^verbatim>\<open>
  def preprocess_function(x):
      if x.ndim == 3:
          x = x[np.newaxis, :, :, :]
      return preprocess_input(x)
  \<close>
  \<^verbatim>\<open>preprocess_input\<close> is Keras' channel-mean normalisation for ResNet50; it is an
  argument here, so every result holds for whatever it computes.
\<close>

definition preprocess_function :: "('a ndarray \<Rightarrow> 'b) \<Rightarrow> 'a ndarray \<Rightarrow> 'b" where
  "preprocess_function preprocess_input x =
     (let x = (if ndim x = 3 then newaxis x else x)
      in preprocess_input x)"

subsection \<open>The feature cache\<close>

text \<open>
  \<^verbatim>\<open>
  labels_train = np.load('labels_train.npy')
  features_train = np.load('features_train.npy')
  ...
  n_samples, n_features = features_train.shape
  \<close>
  The disk maps a file name to the array stored under it. Loading a file that is not
  there raises, and so does unpacking a shape that has not two entries. Nothing else
  about the arrays is checked.
\<close>

type_synonym disk = "string \<Rightarrow> rat ndarray option"

definition load_features :: "disk \<Rightarrow> py_error + (rat ndarray \<times> rat ndarray \<times> nat \<times> nat)" where
  "load_features disk =
     (case disk ''labels_train.npy'' of
        None \<Rightarrow> Inl FileNotFoundError
      | Some labels_train \<Rightarrow>
          (case disk ''features_train.npy'' of
             None \<Rightarrow> Inl FileNotFoundError
           | Some features_train \<Rightarrow>
               (case shape features_train of
                  [n_samples, n_features] \<Rightarrow>
                    Inr (labels_train, features_train, n_samples, n_features)
                | _ \<Rightarrow> Inl ValueError)))"

text \<open>
  Modelled from the spec: the feature extractor, which the notebook loads from
  \<^verbatim>\<open>solutions/dogs_vs_cats_extract_features.py\<close>, a file that is not among the sources.
  The spec: ``given a frozen backbone model and a non-augmenting batch stream, produce
  one fixed-length embedding vector per input image by running a forward pass [...]
  in fixed-size batches, accumulating embeddings and labels into two aligned arrays of
  shape (N, feature\_dim) and (N,)''. A batch is its images and its labels;
  \<open>backbone\<close> is the forward pass on one image and \<open>feature_dim\<close> the backbone's
  declared embedding width.
\<close>

definition extract_features ::
  "('x \<Rightarrow> rat list) \<Rightarrow> nat \<Rightarrow> ('x list \<times> rat list) list \<Rightarrow> rat ndarray \<times> rat ndarray" where
  "extract_features backbone feature_dim batches =
     (let rows = concat (map (\<lambda>(X, y). map backbone X) batches);
          labels = concat (map snd batches)
      in (\<lparr>shape = [length rows, feature_dim], elements = concat rows\<rparr>,
          \<lparr>shape = [length labels], elements = labels\<rparr>))"

text \<open>
  Modelled from the spec: writing the cache, done by the same missing file. The spec:
  ``Cache files: features\_train.<ext> (NxD numeric array), labels\_train.<ext> (N numeric
  array) - persisted embeddings''; the extension is the \<^verbatim>\<open>.npy\<close> of the loading cell.
\<close>

definition save_features :: "rat ndarray \<times> rat ndarray \<Rightarrow> disk \<Rightarrow> disk" where
  "save_features arrays disk =
     disk(''features_train.npy'' \<mapsto> fst arrays, ''labels_train.npy'' \<mapsto> snd arrays)"

subsection \<open>Layers of the composed model\<close>









subsection \<open>Strings and paths (str, os.path)\<close>

text \<open>\<^verbatim>\<open>os.path.join(a, b)\<close> of posixpath, for two arguments.\<close>

definition op_join :: "string \<Rightarrow> string \<Rightarrow> string" where
  "op_join a b =
     (if b \<noteq> [] \<and> hd b = CHR ''/'' then b
      else if a = [] \<or> last a = CHR ''/'' then a @ b
      else a @ ''/'' @ b)"

text \<open>\<^verbatim>\<open>s.endswith(suffix)\<close>\<close>

definition endswith :: "string \<Rightarrow> string \<Rightarrow> bool" where
  "endswith s suf = (length suf \<le> length s \<and> drop (length s - length suf) s = suf)"

text \<open>\<^verbatim>\<open>s.rstrip('/')\<close>\<close>

definition rstrip_sep :: "string \<Rightarrow> string" where
  "rstrip_sep s = rev (dropWhile (\<lambda>c. c = CHR ''/'') (rev s))"

text \<open>
  \<^verbatim>\<open>s.split('.', 1)\<close>: at most one split, at the first dot; a string with no dot comes
  back alone.
\<close>

definition split_dot :: "string \<Rightarrow> string list" where
  "split_dot s =
     (case dropWhile (\<lambda>c. c \<noteq> CHR ''.'') s of
        [] \<Rightarrow> [s]
      | _ # rest \<Rightarrow> [takeWhile (\<lambda>c. c \<noteq> CHR ''.'') s, rest])"

text \<open>
  \<^verbatim>\<open>os.path.basename\<close>, and \<^verbatim>\<open>shutil._basename\<close>, which strips trailing separators
  first.
\<close>

definition basename :: "string \<Rightarrow> string" where
  "basename p = rev (takeWhile (\<lambda>c. c \<noteq> CHR ''/'') (rev p))"

definition shutil_basename :: "string \<Rightarrow> string" where
  "shutil_basename p = basename (rstrip_sep p)"

text \<open>
  How the operating system reads a path string: the names between the separators, empty
  ones dropped, so that trailing and repeated separators do not matter. The root is the
  empty list. The model has no links and no \<^verbatim>\<open>.\<close> or \<^verbatim>\<open>..\<close> entries, and the
  process's working directory is the root, so a relative path is read from there.
\<close>

fun comps :: "string \<Rightarrow> string \<Rightarrow> string list" where
  "comps cur [] = (if cur = [] then [] else [cur])"
| "comps cur (c # cs) =
     (if c = CHR ''/'' then (if cur = [] then comps [] cs else cur # comps [] cs)
      else comps (cur @ [c]) cs)"

definition components :: "string \<Rightarrow> string list" where
  "components p = comps [] p"

subsection \<open>The file system (os, shutil)\<close>

text \<open>
  A file system is an association list from paths to nodes; its order is the order in
  which \<^verbatim>\<open>os.listdir\<close> reports entries, which the operating system leaves open. The root
  directory always exists and has no entry of its own.
\<close>

datatype node = Dir | File

type_synonym path = "string list"

type_synonym fs = "(path \<times> node) list"

definition stat :: "fs \<Rightarrow> path \<Rightarrow> node option" where
  "stat fs p = (if p = [] then Some Dir else map_of fs p)"

text \<open>\<^verbatim>\<open>os.path.exists\<close> and \<^verbatim>\<open>os.path.isdir\<close>; both are false on the empty string.\<close>

definition op_exists :: "fs \<Rightarrow> string \<Rightarrow> bool" where
  "op_exists fs p = (p \<noteq> [] \<and> stat fs (components p) \<noteq> None)"

definition op_isdir :: "fs \<Rightarrow> string \<Rightarrow> bool" where
  "op_isdir fs p = (p \<noteq> [] \<and> stat fs (components p) = Some Dir)"

text \<open>The names of the entries directly under a directory.\<close>

definition children :: "fs \<Rightarrow> path \<Rightarrow> string list" where
  "children fs d = map (last \<circ> fst) (filter (\<lambda>(p, k). p \<noteq> [] \<and> butlast p = d) fs)"

text \<open>\<^verbatim>\<open>os.listdir\<close>\<close>

definition os_listdir :: "fs \<Rightarrow> string \<Rightarrow> py_error + string list" where
  "os_listdir fs p =
     (if \<not> op_exists fs p then Inl FileNotFoundError
      else if \<not> op_isdir fs p then Inl NotADirectoryError
      else Inr (children fs (components p)))"

text \<open>\<^verbatim>\<open>os.mkdir\<close>: the path must be new and its parent an existing directory.\<close>

definition os_mkdir :: "fs \<Rightarrow> string \<Rightarrow> py_error + fs" where
  "os_mkdir fs p =
     (let q = components p in
      if p = [] then Inl FileNotFoundError
      else if stat fs q \<noteq> None then Inl FileExistsError
      else (case stat fs (butlast q) of
              None \<Rightarrow> Inl FileNotFoundError
            | Some File \<Rightarrow> Inl NotADirectoryError
            | Some Dir \<Rightarrow> Inr (fs @ [(q, Dir)])))"

text \<open>
  \<^verbatim>\<open>os.rename\<close> on one device. The source and everything under it moves to the
  destination; a file may replace a file, a directory an empty directory, and whatever
  stood at the destination is gone.
\<close>

definition relocate :: "path \<Rightarrow> path \<Rightarrow> fs \<Rightarrow> fs" where
  "relocate s d fs =
     map (\<lambda>(p, k). (if prefix s p then d @ drop (length s) p else p, k))
       (filter (\<lambda>(p, k). \<not> prefix d p) fs)"

definition os_rename :: "fs \<Rightarrow> path \<Rightarrow> path \<Rightarrow> py_error + fs" where
  "os_rename fs s d =
     (case stat fs s of
        None \<Rightarrow> Inl FileNotFoundError
      | Some k \<Rightarrow>
          if s = d then Inr fs
          else if prefix s d then Inl OSError
          else (case stat fs (butlast d) of
                  None \<Rightarrow> Inl FileNotFoundError
                | Some File \<Rightarrow> Inl NotADirectoryError
                | Some Dir \<Rightarrow>
                    (case stat fs d of
                       None \<Rightarrow> Inr (relocate s d fs)
                     | Some File \<Rightarrow>
                         if k = File then Inr (relocate s d fs) else Inl NotADirectoryError
                     | Some Dir \<Rightarrow>
                         if k = File then Inl IsADirectoryError
                         else if children fs d \<noteq> [] then Inl OSError
                         else Inr (relocate s d fs))))"

text \<open>
  \<^verbatim>\<open>
  def move(src, dst):
      real_dst = dst
      if os.path.isdir(dst):
          if _samefile(src, dst):
              os.rename(src, dst)
              return
          real_dst = os.path.join(dst, _basename(src))
          if os.path.exists(real_dst):
              raise Error("Destination path '%s' already exists" % real_dst)
      try:
          os.rename(src, real_dst)
      except OSError:
          ... copy, then delete the source
  \<close>
  The copying fallback is for a move across devices. On the one device of the model, and
  for a destination that exists (every call of the notebook makes sure of it), the copy
  fails wherever the rename does, so the rename's error is the result.
\<close>

definition shutil_move :: "fs \<Rightarrow> string \<Rightarrow> string \<Rightarrow> py_error + fs" where
  "shutil_move fs src dst =
     (if op_isdir fs dst then
        if components src = components dst
        then os_rename fs (components src) (components dst)
        else
          let real_dst = op_join dst (shutil_basename src) in
          if op_exists fs real_dst then Inl ShutilError
          else os_rename fs (components src) (components real_dst)
      else os_rename fs (components src) (components dst))"

subsection \<open>The dataset organizer\<close>

text \<open>
  What the cells print is part of their effect: the state is the file system and the
  lines written so far.
\<close>

datatype msg =
    Extracting string
  | Rearranging nat string
  | Populating string
  | Moved nat

record world =
  files :: fs
  stdout :: "msg list"

text \<open>
  \<^verbatim>\<open>data_folder = op.expanduser('~/data/dogs-vs-cats')\<close>: the home directory, without
  its trailing separators, in place of the tilde. \<^verbatim>\<open>train_folder\<close> and
  \<^verbatim>\<open>validation_folder\<close> are joined to it.
\<close>

definition data_folder :: "string \<Rightarrow> string" where
  "data_folder home = rstrip_sep home @ ''/data/dogs-vs-cats''"

definition train_folder :: "string \<Rightarrow> string" where
  "train_folder home = op_join (data_folder home) ''train''"

definition validation_folder :: "string \<Rightarrow> string" where
  "validation_folder home = op_join (data_folder home) ''validation''"

text \<open>
  \<^verbatim>\<open>
  if not op.exists(train_folder):
      train_zip = op.join(data_folder, 'train.zip')
      print('Extracting %s...' % train_zip)
      ZipFile(train_zip).extractall(data_folder)
  \<close>
  What the archive holds is not the notebook's business: \<open>extractall\<close>, the effect of
  unpacking the archive at the first path into the second, is an argument. Opening an
  archive that is not there raises.
\<close>

definition extract_train ::
  "(string \<Rightarrow> string \<Rightarrow> fs \<Rightarrow> py_error + fs) \<Rightarrow> string \<Rightarrow> world \<Rightarrow> py_error + world" where
  "extract_train extractall home w =
     (if \<not> op_exists (files w) (train_folder home) then
        let train_zip = op_join (data_folder home) ''train.zip'';
            out = stdout w @ [Extracting train_zip]
        in if \<not> op_exists (files w) train_zip then Inl FileNotFoundError
           else (case extractall train_zip (data_folder home) (files w) of
                   Inl e \<Rightarrow> Inl e
                 | Inr fs' \<Rightarrow> Inr \<lparr>files = fs', stdout = out\<rparr>)
      else Inr w)"

text \<open>
  \<^verbatim>\<open>
  def rearrange_folders(folder):
      image_filenames = [op.join(folder, fn) for fn in os.listdir(folder)
                         if fn.endswith('.jpg')]
      if len(image_filenames) == 0:
          return
      print("Rearranging %d images in %s into one subfolder per class..."
            % (len(image_filenames), folder))
      for image_filename in image_filenames:
          subfolder, _ = image_filename.split('.', 1)
          subfolder = op.join(folder, subfolder)
          if not op.exists(subfolder):
              os.mkdir(subfolder)
          shutil.move(image_filename, subfolder)
  \<close>
  \<open>rearrange_one\<close> is the body of the loop; unpacking anything but two parts raises.
\<close>

definition rearrange_one :: "string \<Rightarrow> fs \<Rightarrow> string \<Rightarrow> py_error + fs" where
  "rearrange_one folder fs image_filename =
     (case split_dot image_filename of
        [subfolder, _] \<Rightarrow>
          let subfolder = op_join folder subfolder in
          (case (if \<not> op_exists fs subfolder then os_mkdir fs subfolder else Inr fs) of
             Inl e \<Rightarrow> Inl e
           | Inr fs1 \<Rightarrow> shutil_move fs1 image_filename subfolder)
      | _ \<Rightarrow> Inl ValueError)"

fun rearrange_loop :: "string \<Rightarrow> fs \<Rightarrow> string list \<Rightarrow> py_error + fs" where
  "rearrange_loop folder fs [] = Inr fs"
| "rearrange_loop folder fs (image_filename # rest) =
     (case rearrange_one folder fs image_filename of
        Inl e \<Rightarrow> Inl e
      | Inr fs' \<Rightarrow> rearrange_loop folder fs' rest)"

definition rearrange_folders :: "string \<Rightarrow> world \<Rightarrow> py_error + world" where
  "rearrange_folders folder w =
     (case os_listdir (files w) folder of
        Inl e \<Rightarrow> Inl e
      | Inr names \<Rightarrow>
          let image_filenames = map (op_join folder) (filter (\<lambda>fn. endswith fn ''.jpg'') names) in
          if length image_filenames = 0 then Inr w
          else (case rearrange_loop folder (files w) image_filenames of
                  Inl e \<Rightarrow> Inl e
                | Inr fs' \<Rightarrow>
                    Inr \<lparr>files = fs',
                         stdout = stdout w @ [Rearranging (length image_filenames) folder]\<rparr>))"

text \<open>
  \<^verbatim>\<open>
  n_validation = 500

  validation_folder = op.join(data_folder, 'validation')
  if not op.exists(validation_folder):
      os.mkdir(validation_folder)
      for class_name in ['dog', 'cat']:
          train_subfolder = op.join(train_folder, class_name)
          validation_subfolder = op.join(validation_folder, class_name)
          print("Populating %s..." % validation_subfolder)
          os.mkdir(validation_subfolder)
          images_filenames = sorted(os.listdir(train_subfolder))
          for image_filename in images_filenames[-n_validation:]:
              shutil.move(op.join(train_subfolder, image_filename),
                          validation_subfolder)
          print("Moved %d images" % len(os.listdir(validation_subfolder)))
  \<close>
  The functions take the count as an argument; the notebook runs them at
  \<open>n_validation\<close>. \<open>py_last n xs\<close> is the slice \<^verbatim>\<open>xs[-n:]\<close>, which is all of
  \<open>xs\<close> when \<open>n\<close> is zero or exceeds its length. \<^verbatim>\<open>sorted\<close> orders strings by
  code point, as the lexicographic order on character lists does.
\<close>

definition n_validation :: nat where
  "n_validation = 500"

definition py_last :: "nat \<Rightarrow> 'a list \<Rightarrow> 'a list" where
  "py_last n xs = (if n = 0 then xs else drop (length xs - n) xs)"

fun move_loop :: "fs \<Rightarrow> string \<Rightarrow> string list \<Rightarrow> string \<Rightarrow> py_error + fs" where
  "move_loop fs train_subfolder [] validation_subfolder = Inr fs"
| "move_loop fs train_subfolder (image_filename # rest) validation_subfolder =
     (case shutil_move fs (op_join train_subfolder image_filename) validation_subfolder of
        Inl e \<Rightarrow> Inl e
      | Inr fs' \<Rightarrow> move_loop fs' train_subfolder rest validation_subfolder)"

text \<open>The two paths the loop body computes for a class.\<close>

definition train_subfolder :: "string \<Rightarrow> string \<Rightarrow> string" where
  "train_subfolder home class_name = op_join (train_folder home) class_name"

definition validation_subfolder :: "string \<Rightarrow> string \<Rightarrow> string" where
  "validation_subfolder home class_name = op_join (validation_folder home) class_name"

definition populate_class :: "nat \<Rightarrow> string \<Rightarrow> world \<Rightarrow> string \<Rightarrow> py_error + world" where
  "populate_class n home w class_name =
     (let out = stdout w @ [Populating (validation_subfolder home class_name)]
      in case os_mkdir (files w) (validation_subfolder home class_name) of
           Inl e \<Rightarrow> Inl e
         | Inr fs1 \<Rightarrow>
             (case os_listdir fs1 (train_subfolder home class_name) of
                Inl e \<Rightarrow> Inl e
              | Inr names \<Rightarrow>
                  (case move_loop fs1 (train_subfolder home class_name)
                          (py_last n (sort names)) (validation_subfolder home class_name) of
                     Inl e \<Rightarrow> Inl e
                   | Inr fs2 \<Rightarrow>
                       (case os_listdir fs2 (validation_subfolder home class_name) of
                          Inl e \<Rightarrow> Inl e
                        | Inr moved \<Rightarrow>
                            Inr \<lparr>files = fs2, stdout = out @ [Moved (length moved)]\<rparr>))))"

fun populate_classes :: "nat \<Rightarrow> string \<Rightarrow> world \<Rightarrow> string list \<Rightarrow> py_error + world" where
  "populate_classes n home w [] = Inr w"
| "populate_classes n home w (class_name # rest) =
     (case populate_class n home w class_name of
        Inl e \<Rightarrow> Inl e
      | Inr w' \<Rightarrow> populate_classes n home w' rest)"

definition make_validation :: "nat \<Rightarrow> string \<Rightarrow> world \<Rightarrow> py_error + world" where
  "make_validation n home w =
     (if \<not> op_exists (files w) (validation_folder home) then
        (case os_mkdir (files w) (validation_folder home) of
           Inl e \<Rightarrow> Inl e
         | Inr fs1 \<Rightarrow> populate_classes n home (w\<lparr>files := fs1\<rparr>) [''dog'', ''cat''])
      else Inr w)"

text \<open>The three cells in the notebook's order.\<close>

definition organize ::
  "(string \<Rightarrow> string \<Rightarrow> fs \<Rightarrow> py_error + fs) \<Rightarrow> string \<Rightarrow> world \<Rightarrow> py_error + world" where
  "organize extractall home w =
     (case extract_train extractall home w of
        Inl e \<Rightarrow> Inl e
      | Inr w1 \<Rightarrow>
          (case rearrange_folders (train_folder home) w1 of
             Inl e \<Rightarrow> Inl e
           | Inr w2 \<Rightarrow> make_validation n_validation home w2))"

text \<open>
  A data directory is organized when each guard of the three cells finds its work done:
  the train directory is there, none of its entries ends in \<^verbatim>\<open>.jpg\<close>, and the
  validation directory is there.
\<close>

definition organized :: "string \<Rightarrow> world \<Rightarrow> bool" where
  "organized home w =
     (op_isdir (files w) (train_folder home) \<and>
      filter (\<lambda>fn. endswith fn ''.jpg'') (children (files w) (components (train_folder home))) = [] \<and>
      op_exists (files w) (validation_folder home))"

subsection \<open>Well-formed file systems\<close>

text \<open>
  A name of an entry is not empty and has no separator. In a file system that can exist,
  no path is listed twice, every name is one, and every entry lies in a directory.
\<close>

definition valid_name :: "string \<Rightarrow> bool" where
  "valid_name n = (n \<noteq> [] \<and> CHR ''/'' \<notin> set n)"

definition wf_fs :: "fs \<Rightarrow> bool" where
  "wf_fs fs =
     (distinct (map fst fs) \<and>
      (\<forall>(p, k) \<in> set fs. p \<noteq> [] \<and> list_all valid_name p \<and> stat fs (butlast p) = Some Dir))"

text \<open>Two paths neither of which lies at or under the other.\<close>

definition incomparable :: "path \<Rightarrow> path \<Rightarrow> bool" where
  "incomparable s d = (\<not> prefix s d \<and> \<not> prefix d s)"

text \<open>A name with a dot in it.\<close>

definition dotted :: "string \<Rightarrow> bool" where
  "dotted a = (CHR ''.'' \<in> set a)"

subsection \<open>Example inputs\<close>

text \<open>
  Fifty-one validation examples served in batches of fifty: the model is right on the
  first fifty and wrong on the last one. An example carries its predicted probability
  as its image, so the prediction function is the identity.
\<close>

definition val51 :: "(rat \<times> rat) list" where
  "val51 = replicate 50 (9 / 10, 1) @ [(1 / 10, 1)]"

text \<open>A single image of one pixel with three channels.\<close>

definition one_pixel :: "nat ndarray" where
  "one_pixel = \<lparr>shape = [1, 1, 3], elements = [255, 0, 0]\<rparr>"






text \<open>
  A freshly extracted train directory with one image, under the home directory
  \<^verbatim>\<open>/home/j.doe\<close>.
\<close>

definition dotted_home :: fs where
  "dotted_home =
     [([''home''], Dir),
      ([''home'', ''j.doe''], Dir),
      ([''home'', ''j.doe'', ''data''], Dir),
      ([''home'', ''j.doe'', ''data'', ''dogs-vs-cats''], Dir),
      ([''home'', ''j.doe'', ''data'', ''dogs-vs-cats'', ''train''], Dir),
      ([''home'', ''j.doe'', ''data'', ''dogs-vs-cats'', ''train'', ''cat.123.jpg''], File)]"

text \<open>The same directory under the home directory \<^verbatim>\<open>/home/jdoe\<close>.\<close>

definition plain_home :: fs where
  "plain_home =
     [([''home''], Dir),
      ([''home'', ''jdoe''], Dir),
      ([''home'', ''jdoe'', ''data''], Dir),
      ([''home'', ''jdoe'', ''data'', ''dogs-vs-cats''], Dir),
      ([''home'', ''jdoe'', ''data'', ''dogs-vs-cats'', ''train''], Dir),
      ([''home'', ''jdoe'', ''data'', ''dogs-vs-cats'', ''train'', ''cat.123.jpg''], File)]"

text \<open>
  A small data directory under \<^verbatim>\<open>/root\<close> after a run of the three cells, and an
  archive that cannot be unpacked.
\<close>

definition organized_example :: world where
  "organized_example =
     \<lparr>files =
        [([''root''], Dir),
         ([''root'', ''data''], Dir),
         ([''root'', ''data'', ''dogs-vs-cats''], Dir),
         ([''root'', ''data'', ''dogs-vs-cats'', ''train''], Dir),
         ([''root'', ''data'', ''dogs-vs-cats'', ''train'', ''cat'', ''cat.1.jpg''], File),
         ([''root'', ''data'', ''dogs-vs-cats'', ''train'', ''dog'', ''dog.1.jpg''], File),
         ([''root'', ''data'', ''dogs-vs-cats'', ''validation'', ''cat'', ''cat.2.jpg''], File),
         ([''root'', ''data'', ''dogs-vs-cats'', ''validation'', ''dog'', ''dog.2.jpg''], File),
         ([''root'', ''data'', ''dogs-vs-cats'', ''train'', ''cat''], Dir),
         ([''root'', ''data'', ''dogs-vs-cats'', ''train'', ''dog''], Dir),
         ([''root'', ''data'', ''dogs-vs-cats'', ''validation''], Dir),
         ([''root'', ''data'', ''dogs-vs-cats'', ''validation'', ''dog''], Dir),
         ([''root'', ''data'', ''dogs-vs-cats'', ''validation'', ''cat''], Dir)],
      stdout = []\<rparr>"

definition broken_archive :: "string \<Rightarrow> string \<Rightarrow> fs \<Rightarrow> py_error + fs" where
  "broken_archive train_zip target fs = Inl OSError"

text \<open>
  A train directory already arranged by class, three images each, and no validation
  directory yet.
\<close>

definition rearranged_example :: world where
  "rearranged_example =
     \<lparr>files =
        [([''root''], Dir),
         ([''root'', ''data''], Dir),
         ([''root'', ''data'', ''dogs-vs-cats''], Dir),
         ([''root'', ''data'', ''dogs-vs-cats'', ''train''], Dir),
         ([''root'', ''data'', ''dogs-vs-cats'', ''train'', ''cat'', ''cat.1.jpg''], File),
         ([''root'', ''data'', ''dogs-vs-cats'', ''train'', ''dog'', ''dog.1.jpg''], File),
         ([''root'', ''data'', ''dogs-vs-cats'', ''train'', ''cat'', ''cat.10.jpg''], File),
         ([''root'', ''data'', ''dogs-vs-cats'', ''train'', ''dog'', ''dog.10.jpg''], File),
         ([''root'', ''data'', ''dogs-vs-cats'', ''train'', ''dog'', ''dog.9.jpg''], File),
         ([''root'', ''data'', ''dogs-vs-cats'', ''train'', ''cat'', ''cat.9.jpg''], File),
         ([''root'', ''data'', ''dogs-vs-cats'', ''train'', ''cat''], Dir),
         ([''root'', ''data'', ''dogs-vs-cats'', ''train'', ''dog''], Dir)],
      stdout = []\<rparr>"

text \<open>
  A train directory with 500 images of each class, \<^verbatim>\<open>dog.000.jpg\<close> to
  \<^verbatim>\<open>dog.499.jpg\<close> and the same for \<^verbatim>\<open>cat\<close>, next to a validation directory that
  is already there and empty.
\<close>

definition digit :: "nat \<Rightarrow> char" where
  "digit d = ''0123456789'' ! d"

definition image_name :: "string \<Rightarrow> nat \<Rightarrow> string" where
  "image_name c i =
     c @ ''.'' @ [digit (i div 100), digit (i div 10 mod 10), digit (i mod 10)] @ ''.jpg''"

definition class_files :: "string \<Rightarrow> nat \<Rightarrow> fs" where
  "class_files c k =
     map (\<lambda>i. ([''root'', ''data'', ''dogs-vs-cats'', ''train'', c, image_name c i], File)) [0..<k]"

definition presplit_example :: world where
  "presplit_example =
     \<lparr>files =
        [([''root''], Dir),
         ([''root'', ''data''], Dir),
         ([''root'', ''data'', ''dogs-vs-cats''], Dir),
         ([''root'', ''data'', ''dogs-vs-cats'', ''train''], Dir),
         ([''root'', ''data'', ''dogs-vs-cats'', ''validation''], Dir),
         ([''root'', ''data'', ''dogs-vs-cats'', ''train'', ''dog''], Dir),
         ([''root'', ''data'', ''dogs-vs-cats'', ''train'', ''cat''], Dir)]
        @ class_files ''dog'' 500 @ class_files ''cat'' 500,
      stdout = []\<rparr>"

text \<open>Two batches of a stream of three images, and a backbone with two features.\<close>

definition two_batches :: "(nat list \<times> rat list) list" where
  "two_batches = [([1, 2], [0, 1]), ([3], [1])]"

definition toy_backbone :: "nat \<Rightarrow> rat list" where
  "toy_backbone x = [of_nat x, 0]"

text \<open>
  A train directory as the archive leaves it, with four images side by side, and the
  state the three cells bring it to. Each class has fewer than 500 images, so all of
  them end up in the validation directory.
\<close>

definition flat_example :: world where
  "flat_example =
     \<lparr>files =
        [([''root''], Dir),
         ([''root'', ''data''], Dir),
         ([''root'', ''data'', ''dogs-vs-cats''], Dir),
         ([''root'', ''data'', ''dogs-vs-cats'', ''train''], Dir),
         ([''root'', ''data'', ''dogs-vs-cats'', ''train'', ''cat.1.jpg''], File),
         ([''root'', ''data'', ''dogs-vs-cats'', ''train'', ''dog.1.jpg''], File),
         ([''root'', ''data'', ''dogs-vs-cats'', ''train'', ''cat.2.jpg''], File),
         ([''root'', ''data'', ''dogs-vs-cats'', ''train'', ''dog.2.jpg''], File)],
      stdout = []\<rparr>"

definition flat_result :: world where
  "flat_result =
     \<lparr>files =
        [([''root''], Dir),
         ([''root'', ''data''], Dir),
         ([''root'', ''data'', ''dogs-vs-cats''], Dir),
         ([''root'', ''data'', ''dogs-vs-cats'', ''train''], Dir),
         ([''root'', ''data'', ''dogs-vs-cats'', ''validation'', ''cat'', ''cat.1.jpg''], File),
         ([''root'', ''data'', ''dogs-vs-cats'', ''validation'', ''dog'', ''dog.1.jpg''], File),
         ([''root'', ''data'', ''dogs-vs-cats'', ''validation'', ''cat'', ''cat.2.jpg''], File),
         ([''root'', ''data'', ''dogs-vs-cats'', ''validation'', ''dog'', ''dog.2.jpg''], File),
         ([''root'', ''data'', ''dogs-vs-cats'', ''train'', ''cat''], Dir),
         ([''root'', ''data'', ''dogs-vs-cats'', ''train'', ''dog''], Dir),
         ([''root'', ''data'', ''dogs-vs-cats'', ''validation''], Dir),
         ([''root'', ''data'', ''dogs-vs-cats'', ''validation'', ''dog''], Dir),
         ([''root'', ''data'', ''dogs-vs-cats'', ''validation'', ''cat''], Dir)],
      stdout =
        [Rearranging 4 ''/root/data/dogs-vs-cats/train'',
         Populating ''/root/data/dogs-vs-cats/validation/dog'', Moved 2,
         Populating ''/root/data/dogs-vs-cats/validation/cat'', Moved 2]\<rparr>"

section \<open>Properties\<close>

subsection \<open>Validation accuracy\<close>

lemma map2_correct:
  "map2 correct (map (predict \<circ> fst) b) (map snd b) = map (\<lambda>(x, y). correct (predict x) y) b"
  by (induction b) auto

text \<open>
  While full batches remain, the iterator serves the next \<open>B\<close> examples and moves on.
\<close>

lemma flow_next_full:
  assumes "0 < B" "(bi + 1) * B \<le> length xs"
  shows "fst (flow_next B xs bi) = take B (drop (bi * B) xs)"
    and "(bi + 1) * B < length xs \<Longrightarrow> snd (flow_next B xs bi) = bi + 1"
proof -
  have lt: "bi * B < length xs" using assms by simp
  then have m: "(bi * B) mod length xs = bi * B" by simp
  show "fst (flow_next B xs bi) = take B (drop (bi * B) xs)"
  proof (cases "length xs > bi * B + B")
    case True then show ?thesis by (simp add: flow_next_def Let_def m)
  next
    case False
    with assms have "length xs - bi * B = B" by simp
    with False show ?thesis by (simp add: flow_next_def Let_def m)
  qed
  show "(bi + 1) * B < length xs \<Longrightarrow> snd (flow_next B xs bi) = bi + 1"
    by (simp add: flow_next_def Let_def m)
qed

text \<open>The loop, started anywhere before the last full batch, collects the next \<open>k\<close> batches.\<close>

lemma val_loop_take:
  "0 < B \<Longrightarrow> bi + k \<le> length xs div B \<Longrightarrow>
   val_loop predict B xs k bi acc =
     acc @ map (\<lambda>(x, y). correct (predict x) y) (take (k * B) (drop (bi * B) xs))"
proof (induction k arbitrary: bi acc)
  case 0
  then show ?case by simp
next
  case (Suc k)
  note IH = Suc.IH and kle = Suc.prems(2)
  have "(bi + 1 + k) * B \<le> (length xs div B) * B"
    using Suc.prems(2) by (intro mult_le_mono1) simp
  also have "\<dots> \<le> length xs" by simp
  finally have le: "(bi + 1 + k) * B \<le> length xs" .
  have "(bi + 1) * B \<le> (bi + 1 + k) * B" by (intro mult_le_mono1) simp
  then have le1: "(bi + 1) * B \<le> length xs" using le by (rule order_trans)
  obtain batch bi' where fn: "flow_next B xs bi = (batch, bi')" by (cases "flow_next B xs bi")
  have batch: "batch = take B (drop (bi * B) xs)"
    using flow_next_full(1)[OF Suc.prems(1) le1] fn by simp
  have split: "take (Suc k * B) (drop (bi * B) xs) =
      take B (drop (bi * B) xs) @ take (k * B) (drop ((bi + 1) * B) xs)"
    by (simp add: take_add add.commute)
  show ?case
  proof (cases k)
    case 0
    then show ?thesis using fn batch by (simp add: map2_correct)
  next
    case (Suc k')
    have "bi + 1 < bi + 1 + k" using Suc by simp
    then have "(bi + 1) * B < (bi + 1 + k) * B"
      using \<open>0 < B\<close> by (rule mult_less_mono1)
    then have "(bi + 1) * B < length xs" using le by (rule less_le_trans)
    then have "bi' = bi + 1" using flow_next_full(2)[OF Suc.prems(1) le1] fn by simp
    moreover have "bi + 1 + k \<le> length xs div B" using kle by simp
    ultimately have "val_loop predict B xs k bi' (acc @ map (\<lambda>(x, y). correct (predict x) y) batch)
        = (acc @ map (\<lambda>(x, y). correct (predict x) y) batch) @
           map (\<lambda>(x, y). correct (predict x) y) (take (k * B) (drop ((bi + 1) * B) xs))"
      using IH[of "bi + 1"] \<open>0 < B\<close> by simp
    then show ?thesis using fn batch split by (simp add: map2_correct)
  qed
qed

text \<open>
  The cell reports the accuracy over the examples of the full batches only: the first
  \<open>(n div B) * B\<close> in the iterator's order.
\<close>

lemma validation_accuracy_prefix:
  "0 < B \<Longrightarrow> validation_accuracy predict B xs =
     Inr (accuracy_of_all predict (take (length xs div B * B) xs))"
  using val_loop_take[of B 0 "length xs div B" xs predict "[]"]
  by (simp add: validation_accuracy_def accuracy_of_all_def)

text \<open>
  When the batch size divides the number of examples, as the notebook's 50 divides its
  1000 validation images, the cell reports the mean of the correctness of every example.
\<close>

theorem validation_accuracy_divides:
  "0 < B \<Longrightarrow> B dvd length xs \<Longrightarrow>
   validation_accuracy predict B xs = Inr (accuracy_of_all predict xs)"
  by (simp add: validation_accuracy_prefix)

theorem validation_accuracy_divides_witness:
  "(0::nat) < 2 \<and> (2::nat) dvd length [(9 / 10, 1), (1 / 10, 0), (1 / 10, 1), (1 / 2, 0 :: rat)] \<and>
   validation_accuracy id 2 [(9 / 10, 1), (1 / 10, 0), (1 / 10, 1), (1 / 2, 0)] = Inr (Some (3 / 4))"
proof -
  have d: "(2::nat) dvd length [(9 / 10, 1), (1 / 10, 0), (1 / 10, 1), (1 / 2, 0 :: rat)]" by simp
  have a: "accuracy_of_all id [(9 / 10, 1), (1 / 10, 0), (1 / 10, 1), (1 / 2, 0)] = Some (3 / 4)"
    by (simp add: accuracy_of_all_def np_mean_def correct_def)
  show ?thesis
    using validation_accuracy_divides[of 2 "[(9 / 10, 1), (1 / 10, 0), (1 / 10, 1), (1 / 2, 0)]" id] d a
    by simp
qed

text \<open>
  C1. The claim: for every number of validation images and every batch size the cell
  goes through the whole validation split and reports the number of correct predictions
  over the number of validation examples. With 51 examples and the notebook's batch size
  of 50 the cell runs \<open>51 div 50 = 1\<close> batch: it never sees the last example, the one
  the model gets wrong, and reports 1 where the accuracy over the split is 50/51.
\<close>

theorem validation_accuracy_drops_last_batch:
  "validation_accuracy id batch_size val51 = Inr (Some 1) \<and>
   accuracy_of_all id val51 = Some (50 / 51)"
  unfolding val51_def batch_size_def by code_simp

text \<open>
  C10. The threshold is strict. For every prediction \<open>p\<close> and label \<open>y\<close>, the example
  counts as correct exactly when \<open>p\<close> is above 0.5 and the label is 1, or \<open>p\<close> is not
  above 0.5 and the label is 0. In particular an example predicted at exactly 0.5 is on
  the negative side: it counts as correct exactly when its label is 0. Through the whole
  cell: a batch of 50 examples all predicted at 0.5 scores 1 when their labels are 0 and
  0 when their labels are 1.
\<close>

theorem correct_strict_threshold:
  "correct p y = (if 1 / 2 < p then y = 1 else y = 0) \<and>
   correct (1 / 2) y = (y = 0) \<and>
   validation_accuracy id batch_size (replicate 50 (1 / 2, 0)) = Inr (Some 1) \<and>
   validation_accuracy id batch_size (replicate 50 (1 / 2, 1)) = Inr (Some 0)"
proof -
  have "correct p y = (if 1 / 2 < p then y = 1 else y = 0)"
    by (auto simp: correct_def)
  moreover have "correct (1 / 2) y = (y = 0)"
    by (auto simp: correct_def)
  moreover have "validation_accuracy id batch_size (replicate 50 (1 / 2, 0)) = Inr (Some 1)"
    unfolding batch_size_def by code_simp
  moreover have "validation_accuracy id batch_size (replicate 50 (1 / 2, 1)) = Inr (Some 0)"
    unfolding batch_size_def by code_simp
  ultimately show ?thesis by blast
qed

subsection \<open>Preprocessing\<close>

lemma ndim_newaxis: "ndim (newaxis x) = Suc (ndim x)"
  by (simp add: ndim_def newaxis_def)

text \<open>
  C9. On a 3-dimensional input the function gives what it gives on the same input with a
  batch axis in front, and \<open>preprocess_input\<close> receives that 4-dimensional array; a
  4-dimensional input is handed on as it is. So for a single image and for a batch the
  normalisation sees a 4-dimensional array. (An input of any other rank is handed on
  unchanged as well.)
\<close>

theorem preprocess_function_batch_axis:
  "(ndim x = 3 \<longrightarrow>
      preprocess_function f x = preprocess_function f (newaxis x) \<and>
      preprocess_function f x = f (newaxis x) \<and> ndim (newaxis x) = 4) \<and>
   (ndim x = 4 \<longrightarrow> preprocess_function f x = f x)"
  by (simp add: preprocess_function_def ndim_newaxis)

theorem preprocess_function_batch_axis_witness:
  "ndim one_pixel = 3 \<and>
   preprocess_function shape one_pixel = [1, 1, 1, 3] \<and>
   preprocess_function shape one_pixel = preprocess_function shape (newaxis one_pixel)"
  using preprocess_function_batch_axis[of one_pixel shape]
  by (simp add: one_pixel_def ndim_def preprocess_function_def newaxis_def)

subsection \<open>The feature cache\<close>

lemma length_concat_rows:
  "\<forall>r \<in> set rows. length r = D \<Longrightarrow> length (concat rows) = length rows * D"
  by (induction rows) auto

lemma length_labels:
  "\<forall>(X, y) \<in> set batches. length X = length y \<Longrightarrow>
   length (concat (map snd batches)) = length (concat (map (\<lambda>(X, y). map f X) batches))"
  by (induction batches) auto

text \<open>
  C8. Let the extractor of the spec run over batches that hold \<open>N\<close> images in all,
  with as many labels as images in each batch and a backbone whose embeddings have
  width \<open>D\<close>, and let it write the cache. Then the notebook's loading cell, run on
  that disk and nothing else, gets back the two arrays the extractor produced: features
  of shape \<open>(N, D)\<close> with \<open>N * D\<close> elements and labels of shape \<open>(N,)\<close>, and it reads
  \<open>n_samples = N\<close> and \<open>n_features = D\<close>. The notebook's run is the instance
  \<open>N = 5000\<close>, \<open>D = 2048\<close>.
\<close>

theorem feature_cache_roundtrip:
  assumes aligned: "\<forall>(X, y) \<in> set batches. length X = length y"
    and width: "\<forall>(X, y) \<in> set batches. \<forall>x \<in> set X. length (backbone x) = D"
    and N: "N = length (concat (map fst batches))"
  shows "\<exists>labels features.
     load_features (save_features (extract_features backbone D batches) disk) =
       Inr (labels, features, N, D) \<and>
     (features, labels) = extract_features backbone D batches \<and>
     shape features = [N, D] \<and> length (elements features) = N * D \<and>
     shape labels = [N] \<and> length (elements labels) = N"
proof -
  let ?rows = "concat (map (\<lambda>(X, y). map backbone X) batches)"
  have n: "length ?rows = N" unfolding N by (induction batches) auto
  have w: "\<forall>r \<in> set ?rows. length r = D" using width by fastforce
  have e: "length (concat ?rows) = N * D" using length_concat_rows[OF w] n by simp
  have l: "length (concat (map snd batches)) = N"
    using length_labels[OF aligned, of backbone] n by simp
  show ?thesis
    using n e l by (simp add: load_features_def save_features_def extract_features_def Let_def)
qed

theorem feature_cache_roundtrip_witness:
  "load_features (save_features (extract_features toy_backbone 2 two_batches) Map.empty) =
     Inr (\<lparr>shape = [3], elements = [0, 1, 1]\<rparr>,
          \<lparr>shape = [3, 2], elements = [1, 0, 2, 0, 3, 0]\<rparr>, 3, 2)"
proof -
  have a: "\<forall>(X, y) \<in> set two_batches. length X = length y" by (simp add: two_batches_def)
  have b: "\<forall>(X, y) \<in> set two_batches. \<forall>x \<in> set X. length (toy_backbone x) = 2"
    by (simp add: two_batches_def toy_backbone_def)
  have c: "3 = length (concat (map fst two_batches))" by (simp add: two_batches_def)
  from feature_cache_roundtrip[OF a b c, of Map.empty]
  obtain labels features where
    "load_features (save_features (extract_features toy_backbone 2 two_batches) Map.empty) =
       Inr (labels, features, 3, 2)"
    "(features, labels) = extract_features toy_backbone 2 two_batches"
    by blast
  moreover have "extract_features toy_backbone 2 two_batches =
     (\<lparr>shape = [3, 2], elements = [1, 0, 2, 0, 3, 0]\<rparr>, \<lparr>shape = [3], elements = [0, 1, 1]\<rparr>)"
    by (simp add: extract_features_def two_batches_def toy_backbone_def)
  ultimately show ?thesis by simp
qed

subsection \<open>Trainable layers\<close>


















subsection \<open>Paths\<close>

lemma valid_name_ends:
  "valid_name n \<Longrightarrow> n \<noteq> [] \<and> hd n \<noteq> CHR ''/'' \<and> CHR ''/'' \<notin> set n \<and> last n \<noteq> CHR ''/''"
  unfolding valid_name_def by (metis hd_in_set last_in_set)

lemma comps_no_sep:
  "CHR ''/'' \<notin> set n \<Longrightarrow> comps cur n = (if cur @ n = [] then [] else [cur @ n])"
  by (induction n arbitrary: cur) auto

lemma comps_append_sep:
  "comps cur (xs @ CHR ''/'' # ys) = comps cur xs @ comps [] ys"
  by (induction xs arbitrary: cur) auto

lemma components_name: "valid_name n \<Longrightarrow> components n = [n]"
  by (simp add: components_def valid_name_def comps_no_sep)

lemma components_append_sep:
  "components (a @ CHR ''/'' # b) = components a @ components b"
  by (simp add: components_def comps_append_sep)

lemma comps_snoc_sep: "comps cur (xs @ [CHR ''/'']) = comps cur xs"
  using comps_append_sep[of cur xs "[]"] by simp

lemma components_join_name:
  assumes "valid_name n"
  shows "components (op_join a n) = components a @ [n]"
proof -
  have n: "n \<noteq> []" "hd n \<noteq> CHR ''/''"
    using valid_name_ends[OF assms] by simp_all
  show ?thesis
  proof (cases "a = []")
    case True
    then show ?thesis using n assms by (simp add: op_join_def components_name) (simp add: components_def)
  next
    case False
    show ?thesis
    proof (cases "last a = CHR ''/''")
      case True
      then obtain a' where a: "a = a' @ [CHR ''/'']" using False by (metis append_butlast_last_id)
      have "components (a @ n) = components a' @ components n"
        using components_append_sep[of a' n] a by simp
      moreover have "components a = components a'"
        using a by (simp add: components_def comps_snoc_sep)
      ultimately show ?thesis using True n assms by (simp add: op_join_def components_name)
    next
      case l: False
      then show ?thesis using False n assms components_append_sep[of a n]
        by (simp add: op_join_def components_name)
    qed
  qed
qed

lemma comps_valid: "cur = [] \<or> valid_name cur \<Longrightarrow> list_all valid_name (comps cur s)"
proof (induction s arbitrary: cur)
  case Nil
  then show ?case by auto
next
  case (Cons c s)
  show ?case
  proof (cases "c = CHR ''/''")
    case True
    then show ?thesis using Cons.prems Cons.IH[of "[]"] by auto
  next
    case False
    then have "valid_name (cur @ [c])" using Cons.prems by (auto simp: valid_name_def)
    then show ?thesis using False Cons.IH[of "cur @ [c]"] by simp
  qed
qed

lemma components_valid: "list_all valid_name (components s)"
  by (simp add: components_def comps_valid)

lemma comps_rstrip: "comps cur (rstrip_sep s) = comps cur s"
proof (induction s rule: rev_induct)
  case Nil
  then show ?case by (simp add: rstrip_sep_def)
next
  case (snoc c s)
  show ?case
  proof (cases "c = CHR ''/''")
    case True
    then have "rstrip_sep (s @ [c]) = rstrip_sep s" by (simp add: rstrip_sep_def)
    then show ?thesis using snoc True by (simp add: comps_snoc_sep)
  next
    case False
    then have "rstrip_sep (s @ [c]) = s @ [c]" by (simp add: rstrip_sep_def)
    then show ?thesis by simp
  qed
qed

lemma components_rstrip: "components (rstrip_sep s) = components s"
  by (simp add: components_def comps_rstrip)

lemma components_data_folder:
  "components (data_folder home) = components home @ [''data'', ''dogs-vs-cats'']"
proof -
  have "data_folder home = rstrip_sep home @ CHR ''/'' # (''data'' @ CHR ''/'' # ''dogs-vs-cats'')"
    by (simp add: data_folder_def)
  then have "components (data_folder home) =
      components (rstrip_sep home) @ components ''data'' @ components ''dogs-vs-cats''"
    by (simp only: components_append_sep)
  moreover have "components ''data'' = [''data'']" "components ''dogs-vs-cats'' = [''dogs-vs-cats'']"
    by (simp_all add: components_def)
  ultimately show ?thesis by (simp add: components_rstrip)
qed

lemma basename_join_name:
  assumes "valid_name n"
  shows "shutil_basename (op_join a n) = n"
proof -
  have n: "n \<noteq> []" "hd n \<noteq> CHR ''/''" "CHR ''/'' \<notin> set n" "last n \<noteq> CHR ''/''"
    using valid_name_ends[OF assms] by simp_all
  have "\<exists>pre. op_join a n = pre @ n \<and> (pre = [] \<or> last pre = CHR ''/'')"
  proof (cases "a = [] \<or> last a = CHR ''/''")
    case True
    then have "op_join a n = a @ n" using n by (simp add: op_join_def)
    then show ?thesis using True by blast
  next
    case False
    then have "op_join a n = (a @ ''/'') @ n" using n by (simp add: op_join_def)
    then show ?thesis by (intro exI[of _ "a @ ''/''"]) simp
  qed
  then obtain pre where j: "op_join a n = pre @ n" "pre = [] \<or> last pre = CHR ''/''"
    by blast
  have tw: "takeWhile (\<lambda>c. c \<noteq> CHR ''/'') (rev n) = rev n"
    using n(3) by (auto simp: takeWhile_eq_all_conv)
  have "rstrip_sep (pre @ n) = pre @ n"
    using n by (cases n rule: rev_cases) (auto simp: rstrip_sep_def)
  moreover have "basename (pre @ n) = n"
  proof (cases pre rule: rev_cases)
    case Nil
    then show ?thesis by (simp add: basename_def tw)
  next
    case (snoc pre' c)
    then have "c = CHR ''/''" using j(2) by simp
    then have tw': "takeWhile (\<lambda>c. c \<noteq> CHR ''/'') (rev n @ c # rev pre') = rev n"
      using n(3) by (auto simp: takeWhile_tail)
    show ?thesis using snoc by (simp add: basename_def tw')
  qed
  ultimately show ?thesis using j(1) by (simp add: shutil_basename_def)
qed

lemma op_join_name_nonempty: "valid_name n \<Longrightarrow> op_join a n \<noteq> []"
  by (auto simp: op_join_def valid_name_def)


subsection \<open>File system operations\<close>

lemma wf_fs_distinct: "wf_fs fs \<Longrightarrow> distinct (map fst fs)"
  by (simp add: wf_fs_def)

lemma wf_fs_entry:
  "wf_fs fs \<Longrightarrow> (p, k) \<in> set fs \<Longrightarrow> p \<noteq> [] \<and> list_all valid_name p \<and> stat fs (butlast p) = Some Dir"
  by (auto simp: wf_fs_def)

lemma stat_mem:
  assumes "wf_fs fs"
  shows "stat fs p = Some k \<longleftrightarrow> (p = [] \<and> k = Dir) \<or> (p, k) \<in> set fs"
proof (cases "p = []")
  case True
  then show ?thesis using wf_fs_entry[OF assms] by (auto simp: stat_def)
next
  case False
  then show ?thesis using wf_fs_distinct[OF assms] by (simp add: stat_def)
qed

lemma stat_None:
  assumes "wf_fs fs"
  shows "stat fs p = None \<longleftrightarrow> p \<noteq> [] \<and> p \<notin> fst ` set fs"
  by (auto simp: stat_def map_of_eq_None_iff)

text \<open>In a well-formed file system an entry's ancestors are directories.\<close>

lemma wf_ancestor:
  assumes "wf_fs fs"
  shows "stat fs (d @ r) \<noteq> None \<Longrightarrow> r \<noteq> [] \<Longrightarrow> stat fs d = Some Dir"
proof (induction r rule: rev_induct)
  case Nil
  then show ?case by simp
next
  case (snoc x r)
  then obtain k where "stat fs (d @ r @ [x]) = Some k" by auto
  then have "(d @ r @ [x], k) \<in> set fs" using stat_mem[OF assms] by simp
  then have par: "stat fs (d @ r) = Some Dir"
    using wf_fs_entry[OF assms, of "d @ r @ [x]" k] by (simp add: butlast_append)
  show ?case
  proof (cases "r = []")
    case True
    then show ?thesis using par by simp
  next
    case False
    then show ?thesis using snoc.IH par by simp
  qed
qed

lemma wf_no_descendants:
  assumes "wf_fs fs" "stat fs d \<noteq> Some Dir" "(p, k) \<in> set fs" "prefix d p"
  shows "p = d"
proof (rule ccontr)
  assume "p \<noteq> d"
  then obtain r where r: "p = d @ r" "r \<noteq> []" using assms(4) by (auto simp: prefix_def)
  have "stat fs (d @ r) \<noteq> None" using stat_mem[OF assms(1), of p k] assms(3) r by simp
  then show False using wf_ancestor[OF assms(1), of d r] r assms(2) by simp
qed

lemma children_set: "set (children fs d) = {n. \<exists>k. (d @ [n], k) \<in> set fs}"
proof -
  have "\<And>p. p \<noteq> [] \<and> butlast p = d \<longleftrightarrow> p = d @ [last p]"
    by (metis append_butlast_last_id butlast_snoc snoc_eq_iff_butlast)
  then show ?thesis
    by (force simp: children_def image_iff)
qed

lemma children_stat:
  "wf_fs fs \<Longrightarrow> n \<in> set (children fs d) \<longleftrightarrow> stat fs (d @ [n]) \<noteq> None"
  using stat_mem[of fs "d @ [n]"] by (auto simp: children_set)

lemma distinct_children:
  assumes "distinct (map fst fs)"
  shows "distinct (children fs d)"
proof -
  let ?F = "filter (\<lambda>(p, k). p \<noteq> [] \<and> butlast p = d) fs"
  have d: "distinct (map fst ?F)"
    using assms by (simp add: distinct_map_filter)
  have i: "inj_on last (set (map fst ?F))"
    by (rule inj_onI) (auto, metis append_butlast_last_id)
  have "distinct (map last (map fst ?F))"
    by (rule distinct_map[THEN iffD2, OF conjI[OF d i]])
  then show ?thesis unfolding children_def by (simp only: map_map)
qed

lemma wf_valid_children:
  "wf_fs fs \<Longrightarrow> n \<in> set (children fs d) \<Longrightarrow> valid_name n"
  using wf_fs_entry[of fs "d @ [n]"] by (auto simp: children_set)

lemma os_mkdir_ok:
  assumes "wf_fs fs" "os_mkdir fs p = Inr fs'"
  shows "wf_fs fs'"
    and "stat fs' q = (if q = components p then Some Dir else stat fs q)"
    and "stat fs (components p) = None"
    and "fs' = fs @ [(components p, Dir)]"
proof -
  let ?q = "components p"
  from assms(2) have new: "stat fs ?q = None" and par: "stat fs (butlast ?q) = Some Dir"
    and fs': "fs' = fs @ [(?q, Dir)]"
    by (auto simp: os_mkdir_def Let_def split: if_splits option.splits node.splits)
  show "stat fs (components p) = None" by (rule new)
  show "fs' = fs @ [(components p, Dir)]" by (rule fs')
  have ne: "?q \<noteq> []" and notin: "?q \<notin> fst ` set fs"
    using new stat_None[OF assms(1)] by auto
  have mo: "map_of fs ?q = None" using notin by (simp add: map_of_eq_None_iff)
  have st: "\<And>q. stat fs' q = (if q = ?q then Some Dir else stat fs q)"
    using ne by (auto simp: stat_def fs' map_add_def mo split: option.splits)
  show "stat fs' q = (if q = components p then Some Dir else stat fs q)" by (rule st)
  show "wf_fs fs'"
    unfolding wf_fs_def
  proof (intro conjI ballI)
    show "distinct (map fst fs')" using wf_fs_distinct[OF assms(1)] notin by (simp add: fs')
  next
    fix e assume e: "e \<in> set fs'"
    obtain r k where rk: "e = (r, k)" by (cases e)
    have "r \<noteq> [] \<and> list_all valid_name r \<and> stat fs' (butlast r) = Some Dir"
    proof (cases "r = ?q")
      case True
      then show ?thesis using ne components_valid[of p] par st by auto
    next
      case False
      then have "(r, k) \<in> set fs" using e rk by (simp add: fs')
      then show ?thesis using wf_fs_entry[OF assms(1), of r k] st by auto
    qed
    then show "case e of (p, k) \<Rightarrow> p \<noteq> [] \<and> list_all valid_name p \<and> stat fs' (butlast p) = Some Dir"
      using rk by simp
  qed
qed


lemma prefix_append_incomparable:
  assumes "incomparable s d"
  shows "\<not> prefix d (s @ r)" "\<not> prefix s (d @ r)"
  using assms by (auto simp: incomparable_def prefix_append)

lemma relocate_mem:
  "(q, k) \<in> set (relocate s d fs) \<longleftrightarrow>
   (\<exists>p. (p, k) \<in> set fs \<and> \<not> prefix d p \<and> q = (if prefix s p then d @ drop (length s) p else p))"
  by (force simp: relocate_def image_iff)

lemma relocate_distinct:
  assumes "distinct (map fst fs)"
  shows "distinct (map fst (relocate s d fs))"
proof -
  let ?F = "filter (\<lambda>(p, k). \<not> prefix d p) fs"
  let ?f = "\<lambda>p. if prefix s p then d @ drop (length s) p else p"
  have eq: "map fst (relocate s d fs) = map ?f (map fst ?F)"
    by (simp add: relocate_def case_prod_unfold comp_def)
  have dF: "distinct (map fst ?F)" using assms by (simp add: distinct_map_filter)
  have inj: "inj_on ?f (set (map fst ?F))"
  proof (rule inj_onI)
    fix x y assume x: "x \<in> set (map fst ?F)" and y: "y \<in> set (map fst ?F)" and e: "?f x = ?f y"
    have nx: "\<not> prefix d x" and ny: "\<not> prefix d y" using x y by auto
    show "x = y"
    proof (cases "prefix s x")
      case sx: True
      show ?thesis
      proof (cases "prefix s y")
        case True
        then show ?thesis using sx e by (auto simp: prefix_def)
      next
        case False
        then have "y = d @ drop (length s) x" using sx e by simp
        then show ?thesis using ny by simp
      qed
    next
      case nsx: False
      show ?thesis
      proof (cases "prefix s y")
        case True
        then have "x = d @ drop (length s) y" using nsx e by simp
        then show ?thesis using nx by simp
      next
        case False
        then show ?thesis using nsx e by simp
      qed
    qed
  qed
  have "distinct (map ?f (map fst ?F))"
    by (rule distinct_map[THEN iffD2, OF conjI[OF dF inj]])
  then show ?thesis by (simp only: eq)
qed

text \<open>
  What a move between two incomparable paths does to every path: the destination's
  subtree is the source's old one, the source's is gone, the rest is as before.
\<close>

lemma stat_relocate:
  assumes wf: "wf_fs fs" and inc: "incomparable s d"
  shows "stat (relocate s d fs) q =
     (if prefix d q then stat fs (s @ drop (length d) q)
      else if prefix s q then None
      else stat fs q)"
proof -
  have sne: "s \<noteq> []" and dne: "d \<noteq> []" using inc by (auto simp: incomparable_def)
  have dist: "distinct (map fst (relocate s d fs))"
    by (rule relocate_distinct[OF wf_fs_distinct[OF wf]])
  have mo: "\<And>k. map_of (relocate s d fs) q = Some k \<longleftrightarrow> (q, k) \<in> set (relocate s d fs)"
    using dist by simp
  have mo0: "\<And>p k. p \<noteq> [] \<Longrightarrow> stat fs p = Some k \<longleftrightarrow> (p, k) \<in> set fs"
    using stat_mem[OF wf] by simp
  show ?thesis
  proof (cases "prefix d q")
    case True
    then obtain r where q: "q = d @ r" by (auto simp: prefix_def)
    have "\<And>k. (q, k) \<in> set (relocate s d fs) \<longleftrightarrow> (s @ r, k) \<in> set fs"
    proof
      fix k assume "(q, k) \<in> set (relocate s d fs)"
      then obtain p where p: "(p, k) \<in> set fs" "\<not> prefix d p"
        "q = (if prefix s p then d @ drop (length s) p else p)"
        using relocate_mem by blast
      have "prefix s p" using p(2,3) True by (cases "prefix s p") auto
      then obtain r' where "p = s @ r'" by (auto simp: prefix_def)
      then show "(s @ r, k) \<in> set fs" using p q by simp
    next
      fix k assume "(s @ r, k) \<in> set fs"
      moreover have "\<not> prefix d (s @ r)" using prefix_append_incomparable[OF inc] by simp
      ultimately show "(q, k) \<in> set (relocate s d fs)"
        unfolding relocate_mem using q by (intro exI[of _ "s @ r"]) simp
    qed
    then have "map_of (relocate s d fs) q = stat fs (s @ r)"
      using mo mo0[of "s @ r"] sne
      by (cases "map_of (relocate s d fs) q"; cases "stat fs (s @ r)") auto
    then show ?thesis using True q dne by (simp add: stat_def)
  next
    case nd: False
    show ?thesis
    proof (cases "prefix s q")
      case True
      have "\<And>k. (q, k) \<notin> set (relocate s d fs)"
      proof
        fix k assume "(q, k) \<in> set (relocate s d fs)"
        then obtain p where p: "(p, k) \<in> set fs" "\<not> prefix d p"
          "q = (if prefix s p then d @ drop (length s) p else p)"
          using relocate_mem by blast
        show False
        proof (cases "prefix s p")
          case True
          then show ?thesis using p nd by simp
        next
          case False
          then show ?thesis using p True by simp
        qed
      qed
      then have "map_of (relocate s d fs) q = None"
        using mo by (cases "map_of (relocate s d fs) q") auto
      then show ?thesis using True nd sne by (auto simp: stat_def)
    next
      case ns: False
      have "\<And>k. (q, k) \<in> set (relocate s d fs) \<longleftrightarrow> (q, k) \<in> set fs"
      proof
        fix k assume "(q, k) \<in> set (relocate s d fs)"
        then obtain p where p: "(p, k) \<in> set fs" "\<not> prefix d p"
          "q = (if prefix s p then d @ drop (length s) p else p)"
          using relocate_mem by blast
        have "\<not> prefix s p" using p nd by (cases "prefix s p") auto
        then show "(q, k) \<in> set fs" using p by simp
      next
        fix k assume "(q, k) \<in> set fs"
        then show "(q, k) \<in> set (relocate s d fs)"
          unfolding relocate_mem using nd ns by (intro exI[of _ q]) simp
      qed
      then have "q \<noteq> [] \<Longrightarrow> map_of (relocate s d fs) q = stat fs q"
        using mo mo0[of q]
        by (cases "map_of (relocate s d fs) q"; cases "stat fs q") auto
      then show ?thesis using nd ns by (auto simp: stat_def)
    qed
  qed
qed

lemma wf_relocate:
  assumes wf: "wf_fs fs" and inc: "incomparable s d"
    and par: "stat fs (butlast d) = Some Dir" and dv: "list_all valid_name d"
  shows "wf_fs (relocate s d fs)"
  unfolding wf_fs_def
proof (intro conjI ballI)
  show "distinct (map fst (relocate s d fs))"
    by (rule relocate_distinct[OF wf_fs_distinct[OF wf]])
next
  fix e assume e: "e \<in> set (relocate s d fs)"
  obtain q k where qk: "e = (q, k)" by (cases e)
  have sne: "s \<noteq> []" and dne: "d \<noteq> []" using inc by (auto simp: incomparable_def)
  note st = stat_relocate[OF wf inc]
  obtain p where p: "(p, k) \<in> set fs" "\<not> prefix d p"
    "q = (if prefix s p then d @ drop (length s) p else p)"
    using e qk relocate_mem by blast
  note pw = wf_fs_entry[OF wf p(1)]
  have "q \<noteq> [] \<and> list_all valid_name q \<and> stat (relocate s d fs) (butlast q) = Some Dir"
  proof (cases "prefix s p")
    case True
    then obtain r where r: "p = s @ r" by (auto simp: prefix_def)
    then have q: "q = d @ r" using p True by simp
    have v: "list_all valid_name q" using q dv pw r by simp
    show ?thesis
    proof (cases "r = []")
      case True
      have "\<not> prefix d (butlast d)" using dne
        by (metis append_butlast_last_id prefix_order.dual_order.antisym prefix_snoc same_prefix_nil not_Cons_self2 prefixI)
      moreover have "\<not> prefix s (butlast d)"
        using inc dne by (metis append_butlast_last_id incomparable_def prefix_prefix)
      ultimately show ?thesis using st[of "butlast d"] par q True dne v by simp
    next
      case False
      then have bl: "butlast q = d @ butlast r" "butlast p = s @ butlast r"
        using q r by (simp_all add: butlast_append)
      show ?thesis using st[of "d @ butlast r"] bl pw q dne v by simp
    qed
  next
    case False
    then have q: "q = p" using p by simp
    have "\<not> prefix d (butlast p)" using p(2) by (metis prefix_order.trans prefixeq_butlast)
    moreover have "\<not> prefix s (butlast p)" using False by (metis prefix_order.trans prefixeq_butlast)
    ultimately show ?thesis using st[of "butlast p"] pw q by simp
  qed
  then show "case e of (p, k) \<Rightarrow> p \<noteq> [] \<and> list_all valid_name p \<and> stat (relocate s d fs) (butlast p) = Some Dir"
    using qk by simp
qed


lemma incomparable_snoc:
  assumes "incomparable T V"
  shows "incomparable (T @ [m]) (V @ [m'])"
    and "\<not> prefix (T @ [m]) V" and "\<not> prefix (V @ [m]) T"
    and "T \<noteq> V"
  using assms by (auto simp: incomparable_def prefix_snoc dest: append_prefixD)

lemma shutil_move_into:
  assumes wf: "wf_fs fs" and dir: "op_isdir fs Vs"
    and inc: "incomparable (components Ts) (components Vs)"
    and src: "stat fs (components Ts @ [m]) \<noteq> None"
    and free: "stat fs (components Vs @ [m]) = None"
  shows "shutil_move fs (op_join Ts m) Vs =
           Inr (relocate (components Ts @ [m]) (components Vs @ [m]) fs)"
    and "wf_fs (relocate (components Ts @ [m]) (components Vs @ [m]) fs)"
proof -
  let ?T = "components Ts" and ?V = "components Vs"
  obtain k where k: "stat fs (?T @ [m]) = Some k" using src by auto
  then have mem: "(?T @ [m], k) \<in> set fs" using stat_mem[OF wf] by simp
  have vm: "valid_name m" using wf_fs_entry[OF wf mem] by simp
  have cs: "components (op_join Ts m) = ?T @ [m]" by (rule components_join_name[OF vm])
  have bn: "shutil_basename (op_join Ts m) = m" by (rule basename_join_name[OF vm])
  have cr: "components (op_join Vs m) = ?V @ [m]" by (rule components_join_name[OF vm])
  have vdir: "stat fs ?V = Some Dir" using dir by (simp add: op_isdir_def)
  have inc': "incomparable (?T @ [m]) (?V @ [m])" by (rule incomparable_snoc(1)[OF inc])
  have ne: "?T @ [m] \<noteq> ?V" using incomparable_snoc(2)[OF inc, of m] by auto
  have ne2: "?T @ [m] \<noteq> ?V @ [m]" using incomparable_snoc(4)[OF inc] by simp
  have np: "\<not> prefix (?T @ [m]) (?V @ [m])" using inc' by (simp add: incomparable_def)
  have "os_rename fs (?T @ [m]) (?V @ [m]) = Inr (relocate (?T @ [m]) (?V @ [m]) fs)"
    using k ne2 np vdir free by (simp add: os_rename_def)
  then show "shutil_move fs (op_join Ts m) Vs =
           Inr (relocate (components Ts @ [m]) (components Vs @ [m]) fs)"
    using dir cs bn cr ne free by (simp add: shutil_move_def Let_def op_exists_def)
  have "list_all valid_name (?V @ [m])" using components_valid[of Vs] vm by simp
  then show "wf_fs (relocate (components Ts @ [m]) (components Vs @ [m]) fs)"
    using wf_relocate[OF wf inc'] vdir by simp
qed

text \<open>
  The loop that moves the entries \<open>ns\<close> of one directory into another: it succeeds,
  each entry ends up under the destination, and no other path changes.
\<close>

lemma move_loop_ok:
  assumes "wf_fs fs" "op_isdir fs Vs"
    and inc: "incomparable (components Ts) (components Vs)"
    and "distinct ns"
    and "\<forall>m \<in> set ns. stat fs (components Ts @ [m]) \<noteq> None \<and> stat fs (components Vs @ [m]) = None"
  shows "\<exists>fs'. move_loop fs Ts ns Vs = Inr fs' \<and> wf_fs fs' \<and>
           (\<forall>q. (\<forall>m \<in> set ns. \<not> prefix (components Ts @ [m]) q \<and> \<not> prefix (components Vs @ [m]) q)
                 \<longrightarrow> stat fs' q = stat fs q) \<and>
           (\<forall>m \<in> set ns. stat fs' (components Ts @ [m]) = None \<and>
                           stat fs' (components Vs @ [m]) \<noteq> None)"
  using assms(1,2,4,5)
proof (induction ns arbitrary: fs)
  case Nil
  then show ?case by simp
next
  case (Cons m ns)
  let ?T = "components Ts" and ?V = "components Vs"
  let ?fs1 = "relocate (?T @ [m]) (?V @ [m]) fs"
  have src: "stat fs (?T @ [m]) \<noteq> None" and free: "stat fs (?V @ [m]) = None"
    using Cons.prems(4) by simp_all
  note mv = shutil_move_into[OF Cons.prems(1,2) inc src free]
  have inc': "incomparable (?T @ [m]) (?V @ [m])" by (rule incomparable_snoc(1)[OF inc])
  note st1 = stat_relocate[OF Cons.prems(1) inc']
  have TV: "?T \<noteq> ?V" by (rule incomparable_snoc(4)[OF inc])
  have nTV: "\<And>a. \<not> prefix (?T @ [a]) ?V" "\<And>a. \<not> prefix (?V @ [a]) ?T"
    using incomparable_snoc(2,3)[OF inc] by auto
  have x1: "\<And>a b. prefix (?T @ [a]) (?T @ [b]) \<longleftrightarrow> a = b"
    and x2: "\<And>a b. prefix (?V @ [a]) (?V @ [b]) \<longleftrightarrow> a = b"
    and x3: "\<And>a b. \<not> prefix (?T @ [a]) (?V @ [b])"
    and x4: "\<And>a b. \<not> prefix (?V @ [a]) (?T @ [b])"
    using TV nTV by (auto simp: prefix_snoc)
  have stT: "\<And>a. stat ?fs1 (?T @ [a]) = (if a = m then None else stat fs (?T @ [a]))"
    by (simp add: st1 x3 x4 del: prefix_snoc)
  have stV: "\<And>a. stat ?fs1 (?V @ [a]) = (if a = m then stat fs (?T @ [m]) else stat fs (?V @ [a]))"
    by (simp add: st1 x3 x4 del: prefix_snoc)
  have dir1: "op_isdir ?fs1 Vs"
    using Cons.prems(2) st1[of ?V] nTV by (simp add: op_isdir_def)
  have pre1: "\<forall>m' \<in> set ns. stat ?fs1 (?T @ [m']) \<noteq> None \<and> stat ?fs1 (?V @ [m']) = None"
  proof
    fix m' assume m': "m' \<in> set ns"
    then have "m' \<noteq> m" using Cons.prems(3) by auto
    then show "stat ?fs1 (?T @ [m']) \<noteq> None \<and> stat ?fs1 (?V @ [m']) = None"
      using Cons.prems(4) m' by (simp add: stT stV)
  qed
  have d1: "distinct ns" using Cons.prems(3) by simp
  obtain fs' where fs': "move_loop ?fs1 Ts ns Vs = Inr fs'" "wf_fs fs'"
    and fr: "\<And>q. (\<forall>m' \<in> set ns. \<not> prefix (?T @ [m']) q \<and> \<not> prefix (?V @ [m']) q)
                 \<Longrightarrow> stat fs' q = stat ?fs1 q"
    and moved: "\<And>m'. m' \<in> set ns \<Longrightarrow> stat fs' (?T @ [m']) = None \<and> stat fs' (?V @ [m']) \<noteq> None"
    using Cons.IH[OF mv(2) dir1 d1 pre1] by blast
  have res: "move_loop fs Ts (m # ns) Vs = Inr fs'" using mv(1) fs'(1) by simp
  have frame: "\<And>q. (\<forall>m' \<in> set (m # ns). \<not> prefix (?T @ [m']) q \<and> \<not> prefix (?V @ [m']) q)
                 \<Longrightarrow> stat fs' q = stat fs q"
  proof -
    fix q assume a: "\<forall>m' \<in> set (m # ns). \<not> prefix (?T @ [m']) q \<and> \<not> prefix (?V @ [m']) q"
    then have "stat fs' q = stat ?fs1 q" using fr[of q] by simp
    also have "\<dots> = stat fs q" using st1[of q] a by simp
    finally show "stat fs' q = stat fs q" .
  qed
  have mnot: "m \<notin> set ns" using Cons.prems(3) by simp
  have m1: "stat fs' (?T @ [m]) = None"
  proof -
    have "\<forall>m' \<in> set ns. \<not> prefix (?T @ [m']) (?T @ [m]) \<and> \<not> prefix (?V @ [m']) (?T @ [m])"
      using mnot by (auto simp: x4 simp del: prefix_snoc)
    then have "stat fs' (?T @ [m]) = stat ?fs1 (?T @ [m])" by (rule fr)
    then show ?thesis by (simp add: stT)
  qed
  have m2: "stat fs' (?V @ [m]) \<noteq> None"
  proof -
    have "\<forall>m' \<in> set ns. \<not> prefix (?T @ [m']) (?V @ [m]) \<and> \<not> prefix (?V @ [m']) (?V @ [m])"
      using mnot by (auto simp: x3 simp del: prefix_snoc)
    then have "stat fs' (?V @ [m]) = stat ?fs1 (?V @ [m])" by (rule fr)
    then show ?thesis using src by (simp add: stV)
  qed
  have "\<forall>m' \<in> set (m # ns). stat fs' (?T @ [m']) = None \<and> stat fs' (?V @ [m']) \<noteq> None"
    using m1 m2 moved by auto
  then show ?case using res fs'(2) frame by blast
qed


subsection \<open>The dataset organizer\<close>

lemma op_isdir_exists: "op_isdir fs p \<Longrightarrow> op_exists fs p"
  by (simp add: op_isdir_def op_exists_def)

lemma dotted_home_wf: "wf_fs dotted_home"
  by code_simp

text \<open>
  C4. The claim: the class directory of \<^verbatim>\<open>cat.123.jpg\<close> is named by the file name's
  prefix \<^verbatim>\<open>cat\<close>, whatever the path of the data directory. The function splits the
  joined path, not the file name, at its first dot. Under the home directory
  \<^verbatim>\<open>/home/jdoe\<close> that is the dot of the file name and the image goes to
  \<^verbatim>\<open>train/cat\<close>. Under \<^verbatim>\<open>/home/j.doe\<close>, in a file system that is well-formed
  too (\<open>dotted_home_wf\<close>) and has the same train directory, the first dot is the one of the home directory: the function
  creates \<^verbatim>\<open>/home/j\<close> and moves the image there, and the train directory gets no
  \<^verbatim>\<open>cat\<close> directory.
\<close>

theorem rearrange_folders_dotted_home:
  "rearrange_folders (train_folder ''/home/j.doe'') \<lparr>files = dotted_home, stdout = []\<rparr> =
   Inr \<lparr>files =
          [([''home''], Dir),
           ([''home'', ''j.doe''], Dir),
           ([''home'', ''j.doe'', ''data''], Dir),
           ([''home'', ''j.doe'', ''data'', ''dogs-vs-cats''], Dir),
           ([''home'', ''j.doe'', ''data'', ''dogs-vs-cats'', ''train''], Dir),
           ([''home'', ''j'', ''cat.123.jpg''], File),
           ([''home'', ''j''], Dir)],
        stdout = [Rearranging 1 ''/home/j.doe/data/dogs-vs-cats/train'']\<rparr> \<and>
   rearrange_folders (train_folder ''/home/jdoe'') \<lparr>files = plain_home, stdout = []\<rparr> =
   Inr \<lparr>files =
          [([''home''], Dir),
           ([''home'', ''jdoe''], Dir),
           ([''home'', ''jdoe'', ''data''], Dir),
           ([''home'', ''jdoe'', ''data'', ''dogs-vs-cats''], Dir),
           ([''home'', ''jdoe'', ''data'', ''dogs-vs-cats'', ''train''], Dir),
           ([''home'', ''jdoe'', ''data'', ''dogs-vs-cats'', ''train'', ''cat'', ''cat.123.jpg''], File),
           ([''home'', ''jdoe'', ''data'', ''dogs-vs-cats'', ''train'', ''cat''], Dir)],
        stdout = [Rearranging 1 ''/home/jdoe/data/dogs-vs-cats/train'']\<rparr>"
  by code_simp

subsection \<open>The validation split\<close>

lemma valid_name_literals:
  "valid_name ''train''" "valid_name ''validation''" "valid_name ''dog''" "valid_name ''cat''"
  by (simp_all add: valid_name_def)

lemma components_folders:
  "components (train_folder home) = components home @ [''data'', ''dogs-vs-cats'', ''train'']"
  "components (validation_folder home) = components home @ [''data'', ''dogs-vs-cats'', ''validation'']"
  by (simp_all add: train_folder_def validation_folder_def components_join_name
      valid_name_literals components_data_folder)

lemma components_subfolders:
  assumes "valid_name c"
  shows "components (train_subfolder home c) =
           components home @ [''data'', ''dogs-vs-cats'', ''train'', c]"
    and "components (validation_subfolder home c) =
           components home @ [''data'', ''dogs-vs-cats'', ''validation'', c]"
  using assms
  by (simp_all add: train_subfolder_def validation_subfolder_def components_join_name
      components_folders)

lemma subfolders_nonempty:
  "valid_name c \<Longrightarrow> train_subfolder home c \<noteq> []"
  "valid_name c \<Longrightarrow> validation_subfolder home c \<noteq> []"
  "validation_folder home \<noteq> []"
  by (simp_all add: train_subfolder_def validation_subfolder_def validation_folder_def
      op_join_name_nonempty valid_name_literals)

lemma subfolders_incomparable:
  assumes "valid_name c" "valid_name c'"
  shows "incomparable (components (train_subfolder home c)) (components (validation_subfolder home c'))"
  using assms by (simp add: components_subfolders incomparable_def)

lemma children_snoc:
  "children (fs @ [(p, k)]) d = children fs d @ (if p \<noteq> [] \<and> butlast p = d then [last p] else [])"
  by (simp add: children_def)

lemma sort_cong_set:
  assumes "distinct xs" "distinct ys" "set xs = set ys"
  shows "sort xs = sort (ys :: 'a :: linorder list)"
proof -
  have "sort xs = sorted_list_of_set (set xs)"
    using assms(1) by (simp add: sorted_list_of_set_sort_remdups distinct_remdups_id)
  moreover have "sort ys = sorted_list_of_set (set ys)"
    using assms(2) by (simp add: sorted_list_of_set_sort_remdups distinct_remdups_id)
  ultimately show ?thesis using assms(3) by simp
qed

lemma py_last_props:
  assumes "0 < n" "distinct xs"
  shows "distinct (py_last n (sort xs))"
    and "set (py_last n (sort xs)) \<subseteq> set xs"
    and "n \<le> length xs \<Longrightarrow> length (py_last n (sort xs)) = n"
    and "\<forall>t \<in> set xs - set (py_last n (sort xs)). \<forall>v \<in> set (py_last n (sort xs)). t < v"
proof -
  let ?s = "sort xs" and ?k = "length xs - n"
  have pl: "py_last n ?s = drop ?k ?s" using assms(1) by (simp add: py_last_def)
  have ds: "distinct ?s" using assms(2) by simp
  show "distinct (py_last n ?s)" using ds pl by simp
  show "set (py_last n ?s) \<subseteq> set xs" using pl set_drop_subset[of ?k ?s] by simp
  show "n \<le> length xs \<Longrightarrow> length (py_last n ?s) = n" using pl by simp
  have td: "take ?k ?s @ drop ?k ?s = ?s" by simp
  have srt: "sorted (take ?k ?s @ drop ?k ?s)" by simp
  have dj: "set (take ?k ?s) \<inter> set (drop ?k ?s) = {}"
    using ds td by (metis distinct_append)
  have un: "set (take ?k ?s) \<union> set (drop ?k ?s) = set xs"
    using td by (metis set_append set_sort)
  show "\<forall>t \<in> set xs - set (py_last n ?s). \<forall>v \<in> set (py_last n ?s). t < v"
  proof (intro ballI)
    fix t v assume t: "t \<in> set xs - set (py_last n ?s)" and v: "v \<in> set (py_last n ?s)"
    then have t': "t \<in> set (take ?k ?s)" and v': "v \<in> set (drop ?k ?s)" using un pl by auto
    then have "t \<le> v" using srt unfolding sorted_append by blast
    moreover have "t \<noteq> v" using t' v' dj by auto
    ultimately show "t < v" by simp
  qed
qed


text \<open>
  One class: the new validation directory receives the last \<open>n\<close> sorted names of the
  class's train directory, and nothing outside the two directories changes.
\<close>

lemma populate_class_ok:
  assumes wf: "wf_fs (files w)" and c: "valid_name c" and n: "0 < n"
    and vdir: "stat (files w) (components (validation_folder home)) = Some Dir"
    and free: "stat (files w) (components (validation_subfolder home c)) = None"
    and tdir: "stat (files w) (components (train_subfolder home c)) = Some Dir"
  shows "\<exists>w'. populate_class n home w c = Inr w' \<and> wf_fs (files w') \<and>
     set (children (files w') (components (validation_subfolder home c))) =
       set (py_last n (sort (children (files w) (components (train_subfolder home c))))) \<and>
     set (children (files w') (components (train_subfolder home c))) =
       set (children (files w) (components (train_subfolder home c))) -
       set (py_last n (sort (children (files w) (components (train_subfolder home c))))) \<and>
     stat (files w') (components (train_subfolder home c)) = Some Dir \<and>
     stat (files w') (components (validation_subfolder home c)) = Some Dir \<and>
     (\<forall>q. \<not> prefix (components (train_subfolder home c)) q \<and>
          \<not> prefix (components (validation_subfolder home c)) q \<longrightarrow>
          stat (files w') q = stat (files w) q) \<and>
     stdout w' = stdout w @ [Populating (validation_subfolder home c),
        Moved (length (children (files w') (components (validation_subfolder home c))))]"
proof -
  let ?fs = "files w"
  let ?Ts = "train_subfolder home c" and ?Vs = "validation_subfolder home c"
  let ?T = "components ?Ts" and ?V = "components ?Vs"
  let ?names = "children ?fs ?T"
  let ?ns = "py_last n (sort ?names)"
  let ?fs1 = "?fs @ [(?V, Dir)]"
  have inc: "incomparable ?T ?V" by (rule subfolders_incomparable[OF c c])
  have TV: "?T \<noteq> ?V" by (rule incomparable_snoc(4)[OF inc])
  have nTV: "\<And>a. \<not> prefix (?T @ [a]) ?V" "\<And>a. \<not> prefix (?V @ [a]) ?T"
    using incomparable_snoc(2,3)[OF inc] by auto
  have x3: "\<And>a b. \<not> prefix (?T @ [a]) (?V @ [b])"
    and x4: "\<And>a b. \<not> prefix (?V @ [a]) (?T @ [b])"
    using TV nTV by (auto simp: prefix_snoc)
  have bl: "butlast ?V = components (validation_folder home)"
    by (simp add: components_subfolders[OF c] components_folders butlast_append)
  have Vne: "?Vs \<noteq> []" "?Ts \<noteq> []" using subfolders_nonempty c by simp_all
  have mk: "os_mkdir ?fs ?Vs = Inr ?fs1"
    using free vdir bl Vne by (simp add: os_mkdir_def Let_def)
  note m = os_mkdir_ok[OF wf mk]
  have st1: "\<And>q. stat ?fs1 q = (if q = ?V then Some Dir else stat ?fs q)" by (rule m(2))
  have blT: "butlast ?V \<noteq> ?T"
    by (simp add: components_subfolders[OF c] butlast_append)
  have ch1: "children ?fs1 ?T = ?names" using blT by (simp add: children_snoc)
  have ls1: "os_listdir ?fs1 ?Ts = Inr ?names"
    using tdir TV Vne ch1 by (simp add: os_listdir_def op_exists_def op_isdir_def st1)
  have dn: "distinct ?names" by (rule distinct_children[OF wf_fs_distinct[OF wf]])
  note pl = py_last_props[OF n dn]
  have dir1: "op_isdir ?fs1 ?Vs" using Vne by (simp add: op_isdir_def st1)
  have noV: "\<And>a. stat ?fs (?V @ [a]) = None"
  proof (rule ccontr)
    fix a assume "stat ?fs (?V @ [a]) \<noteq> None"
    then have "stat ?fs ?V = Some Dir" using wf_ancestor[OF wf, of ?V "[a]"] by simp
    then show False using free by simp
  qed
  have pre: "\<forall>m \<in> set ?ns. stat ?fs1 (?T @ [m]) \<noteq> None \<and> stat ?fs1 (?V @ [m]) = None"
  proof
    fix a assume "a \<in> set ?ns"
    then have "a \<in> set ?names" using pl(2) by auto
    then have "stat ?fs (?T @ [a]) \<noteq> None" using children_stat[OF wf] by simp
    then show "stat ?fs1 (?T @ [a]) \<noteq> None \<and> stat ?fs1 (?V @ [a]) = None"
      using noV nTV(1)[of a] by (auto simp: st1)
  qed
  obtain fs2 where mv: "move_loop ?fs1 ?Ts ?ns ?Vs = Inr fs2" and wf2: "wf_fs fs2"
    and fr: "\<And>q. (\<forall>m \<in> set ?ns. \<not> prefix (?T @ [m]) q \<and> \<not> prefix (?V @ [m]) q)
                 \<Longrightarrow> stat fs2 q = stat ?fs1 q"
    and moved: "\<And>m. m \<in> set ?ns \<Longrightarrow> stat fs2 (?T @ [m]) = None \<and> stat fs2 (?V @ [m]) \<noteq> None"
    using move_loop_ok[OF m(1) dir1 inc pl(1) pre] by blast
  have frV: "stat fs2 ?V = Some Dir"
  proof -
    have "\<forall>m \<in> set ?ns. \<not> prefix (?T @ [m]) ?V \<and> \<not> prefix (?V @ [m]) ?V" using nTV by simp
    then have "stat fs2 ?V = stat ?fs1 ?V" by (rule fr)
    then show ?thesis by (simp add: st1)
  qed
  have frT: "stat fs2 ?T = Some Dir"
  proof -
    have "\<forall>m \<in> set ?ns. \<not> prefix (?T @ [m]) ?T \<and> \<not> prefix (?V @ [m]) ?T" using nTV by simp
    then have "stat fs2 ?T = stat ?fs1 ?T" by (rule fr)
    then show ?thesis using tdir TV by (simp add: st1)
  qed
  have chV: "set (children fs2 ?V) = set ?ns"
  proof (rule set_eqI)
    fix a
    show "a \<in> set (children fs2 ?V) \<longleftrightarrow> a \<in> set ?ns"
    proof (cases "a \<in> set ?ns")
      case True
      then show ?thesis using moved[of a] children_stat[OF wf2] by simp
    next
      case False
      then have "\<forall>m \<in> set ?ns. \<not> prefix (?T @ [m]) (?V @ [a]) \<and> \<not> prefix (?V @ [m]) (?V @ [a])"
        by (auto simp: x3 simp del: prefix_snoc)
      then have "stat fs2 (?V @ [a]) = stat ?fs1 (?V @ [a])" by (rule fr)
      then show ?thesis using False noV children_stat[OF wf2] by (simp add: st1)
    qed
  qed
  have chT: "set (children fs2 ?T) = set ?names - set ?ns"
  proof (rule set_eqI)
    fix a
    show "a \<in> set (children fs2 ?T) \<longleftrightarrow> a \<in> set ?names - set ?ns"
    proof (cases "a \<in> set ?ns")
      case True
      then show ?thesis using moved[of a] children_stat[OF wf2] by simp
    next
      case False
      then have "\<forall>m \<in> set ?ns. \<not> prefix (?T @ [m]) (?T @ [a]) \<and> \<not> prefix (?V @ [m]) (?T @ [a])"
        by (auto simp: x4 simp del: prefix_snoc)
      then have "stat fs2 (?T @ [a]) = stat ?fs1 (?T @ [a])" by (rule fr)
      then show ?thesis using False nTV(1)[of a] children_stat[OF wf2] children_stat[OF wf]
        by (auto simp: st1)
    qed
  qed
  have frame: "\<forall>q. \<not> prefix ?T q \<and> \<not> prefix ?V q \<longrightarrow> stat fs2 q = stat ?fs q"
  proof (intro allI impI)
    fix q assume q: "\<not> prefix ?T q \<and> \<not> prefix ?V q"
    then have "\<forall>m \<in> set ?ns. \<not> prefix (?T @ [m]) q \<and> \<not> prefix (?V @ [m]) q"
      by (auto dest: append_prefixD)
    then have "stat fs2 q = stat ?fs1 q" by (rule fr)
    moreover have "q \<noteq> ?V" using q by auto
    ultimately show "stat fs2 q = stat ?fs q" by (simp add: st1)
  qed
  have ls2: "os_listdir fs2 ?Vs = Inr (children fs2 ?V)"
    using frV Vne by (simp add: os_listdir_def op_exists_def op_isdir_def)
  have "populate_class n home w c =
      Inr \<lparr>files = fs2, stdout = stdout w @ [Populating ?Vs, Moved (length (children fs2 ?V))]\<rparr>"
    using mk ls1 mv ls2
    by (simp add: populate_class_def Let_def)
  then show ?thesis using wf2 chV chT frT frV frame by simp
qed


lemma os_listdir_Inr:
  "os_listdir fs p = Inr ns \<Longrightarrow> stat fs (components p) = Some Dir \<and> ns = children fs (components p) \<and> p \<noteq> []"
  by (auto simp: os_listdir_def op_isdir_def split: if_splits)

lemma os_listdir_dir:
  "p \<noteq> [] \<Longrightarrow> stat fs (components p) = Some Dir \<Longrightarrow> os_listdir fs p = Inr (children fs (components p))"
  by (simp add: os_listdir_def op_isdir_def op_exists_def)

text \<open>
  C2, as amended. Take a well-formed file system in which the validation directory does
  not exist yet and \<^verbatim>\<open>train/dog\<close> and \<^verbatim>\<open>train/cat\<close> are directories with at least
  \<open>n\<close> entries each, for a count \<open>n > 0\<close> (the notebook's is \<open>n_validation = 500\<close>).
  Then the cell succeeds, and for each class the validation directory holds exactly
  \<open>n\<close> entries, the last \<open>n\<close> names of the class in sorted order; the class's train
  directory holds the other names and none of the moved ones; every name left in train
  is smaller than every name in validation; and the cell prints that it moved \<open>n\<close>
  images for each class.
\<close>

theorem make_validation_split:
  assumes wf: "wf_fs (files w)" and n: "0 < n"
    and new: "\<not> op_exists (files w) (validation_folder home)"
    and dogs: "os_listdir (files w) (train_subfolder home ''dog'') = Inr dogs" "n \<le> length dogs"
    and cats: "os_listdir (files w) (train_subfolder home ''cat'') = Inr cats" "n \<le> length cats"
  shows "\<exists>w' vd td vc tc.
     make_validation n home w = Inr w' \<and>
     os_listdir (files w') (validation_subfolder home ''dog'') = Inr vd \<and>
     os_listdir (files w') (train_subfolder home ''dog'') = Inr td \<and>
     length vd = n \<and> set vd = set (py_last n (sort dogs)) \<and> set td = set dogs - set vd \<and>
     (\<forall>t \<in> set td. \<forall>v \<in> set vd. t < v) \<and>
     os_listdir (files w') (validation_subfolder home ''cat'') = Inr vc \<and>
     os_listdir (files w') (train_subfolder home ''cat'') = Inr tc \<and>
     length vc = n \<and> set vc = set (py_last n (sort cats)) \<and> set tc = set cats - set vc \<and>
     (\<forall>t \<in> set tc. \<forall>v \<in> set vc. t < v) \<and>
     stdout w' = stdout w @
       [Populating (validation_subfolder home ''dog''), Moved n,
        Populating (validation_subfolder home ''cat''), Moved n]"
proof -
  let ?fs = "files w"
  let ?H = "components home @ [''data'', ''dogs-vs-cats'']"
  let ?Vb = "components (validation_folder home)"
  let ?Td = "components (train_subfolder home ''dog'')"
  let ?Vd = "components (validation_subfolder home ''dog'')"
  let ?Tc = "components (train_subfolder home ''cat'')"
  let ?Vc = "components (validation_subfolder home ''cat'')"
  note vn = valid_name_literals
  note cs = components_subfolders[OF vn(3)] components_subfolders[OF vn(4)] components_folders
  note d = os_listdir_Inr[OF dogs(1)] and c = os_listdir_Inr[OF cats(1)]
  have vnone: "stat ?fs ?Vb = None"
    using new subfolders_nonempty(3)[of home] by (simp add: op_exists_def)
  have par: "stat ?fs ?H = Some Dir"
    using wf_ancestor[OF wf, of ?H "[''train'', ''dog'']"] d by (simp add: cs)
  have mk: "os_mkdir ?fs (validation_folder home) = Inr (?fs @ [(?Vb, Dir)])"
    using vnone par subfolders_nonempty(3)[of home]
    by (simp add: os_mkdir_def Let_def cs butlast_append)
  let ?fs1 = "?fs @ [(?Vb, Dir)]"
  let ?w1 = "w\<lparr>files := ?fs1\<rparr>"
  note m = os_mkdir_ok[OF wf mk]
  have st1a: "\<And>q. stat ?fs1 q = (if q = ?Vb then Some Dir else stat ?fs q)" by (rule m(2))
  note st1 = st1a st1a[unfolded components_folders]
  have noV: "\<And>r. r \<noteq> [] \<Longrightarrow> stat ?fs (?Vb @ r) = None"
  proof (rule ccontr)
    fix r :: path assume "r \<noteq> []" "stat ?fs (?Vb @ r) \<noteq> None"
    then have "stat ?fs ?Vb = Some Dir" using wf_ancestor[OF wf, of ?Vb r] by simp
    then show False using vnone by simp
  qed
  have Vd: "?Vd = ?Vb @ [''dog'']" and Vc: "?Vc = ?Vb @ [''cat'']" by (simp_all add: cs)
  \<comment> \<open>the dog class\<close>
  have p1: "stat (files ?w1) ?Vb = Some Dir" by (simp add: st1)
  have p2: "stat (files ?w1) ?Vd = None" using noV[of "[''dog'']"] by (simp add: st1 Vd)
  have p3: "stat (files ?w1) ?Td = Some Dir" using d by (simp add: st1 cs)
  have wf1: "wf_fs (files ?w1)" using m(1) by simp
  have ch1d: "children (files ?w1) ?Td = dogs" using d by (simp add: children_snoc cs butlast_append)
  obtain w2 where w2: "populate_class n home ?w1 ''dog'' = Inr w2" and wf2: "wf_fs (files w2)"
    and vd2: "set (children (files w2) ?Vd) = set (py_last n (sort dogs))"
    and td2: "set (children (files w2) ?Td) = set dogs - set (py_last n (sort dogs))"
    and sT2: "stat (files w2) ?Td = Some Dir" and sV2: "stat (files w2) ?Vd = Some Dir"
    and fr2: "\<And>q. \<not> prefix ?Td q \<and> \<not> prefix ?Vd q \<Longrightarrow> stat (files w2) q = stat (files ?w1) q"
    and out2: "stdout w2 = stdout w @ [Populating (validation_subfolder home ''dog''),
        Moved (length (children (files w2) ?Vd))]"
    using populate_class_ok[OF wf1 vn(3) n p1 p2 p3] unfolding ch1d by auto
  \<comment> \<open>the cat class\<close>
  have q1: "stat (files w2) ?Vb = Some Dir"
    using fr2[of ?Vb] by (simp add: st1 cs)
  have q2: "stat (files w2) ?Vc = None"
    using fr2[of ?Vc] noV[of "[''cat'']"] by (simp add: st1 cs)
  have q3: "stat (files w2) ?Tc = Some Dir"
    using fr2[of ?Tc] c by (simp add: st1 cs)
  have ch2c: "set (children (files w2) ?Tc) = set cats"
  proof (rule set_eqI)
    fix a
    have "stat (files w2) (?Tc @ [a]) = stat ?fs (?Tc @ [a])"
      using fr2[of "?Tc @ [a]"] by (simp add: st1 cs)
    then show "a \<in> set (children (files w2) ?Tc) \<longleftrightarrow> a \<in> set cats"
      using children_stat[OF wf2] children_stat[OF wf] c by simp
  qed
  have srt: "sort (children (files w2) ?Tc) = sort cats"
    using sort_cong_set[OF distinct_children[OF wf_fs_distinct[OF wf2]] _ ch2c]
      distinct_children[OF wf_fs_distinct[OF wf], of ?Tc] c by simp
  obtain w3 where w3: "populate_class n home w2 ''cat'' = Inr w3" and wf3: "wf_fs (files w3)"
    and vc3: "set (children (files w3) ?Vc) = set (py_last n (sort cats))"
    and tc3: "set (children (files w3) ?Tc) = set cats - set (py_last n (sort cats))"
    and sT3: "stat (files w3) ?Tc = Some Dir" and sV3: "stat (files w3) ?Vc = Some Dir"
    and fr3: "\<And>q. \<not> prefix ?Tc q \<and> \<not> prefix ?Vc q \<Longrightarrow> stat (files w3) q = stat (files w2) q"
    and out3: "stdout w3 = stdout w2 @ [Populating (validation_subfolder home ''cat''),
        Moved (length (children (files w3) ?Vc))]"
    using populate_class_ok[OF wf2 vn(4) n q1 q2 q3] unfolding srt ch2c by auto
  \<comment> \<open>the dog directories after the cat class\<close>
  have sT3d: "stat (files w3) ?Td = Some Dir" using fr3[of ?Td] sT2 by (simp add: cs)
  have sV3d: "stat (files w3) ?Vd = Some Dir" using fr3[of ?Vd] sV2 by (simp add: cs)
  have vd3: "set (children (files w3) ?Vd) = set (py_last n (sort dogs))"
  proof -
    have "\<And>a. stat (files w3) (?Vd @ [a]) = stat (files w2) (?Vd @ [a])"
      using fr3 by (simp add: cs)
    then have "set (children (files w3) ?Vd) = set (children (files w2) ?Vd)"
      using children_stat[OF wf3] children_stat[OF wf2] by auto
    then show ?thesis using vd2 by simp
  qed
  have td3: "set (children (files w3) ?Td) = set dogs - set (py_last n (sort dogs))"
  proof -
    have "\<And>a. stat (files w3) (?Td @ [a]) = stat (files w2) (?Td @ [a])"
      using fr3 by (simp add: cs)
    then have "set (children (files w3) ?Td) = set (children (files w2) ?Td)"
      using children_stat[OF wf3] children_stat[OF wf2] by auto
    then show ?thesis using td2 by simp
  qed
  have dd: "distinct dogs" "distinct cats"
    using distinct_children[OF wf_fs_distinct[OF wf]] d c by simp_all
  note pd = py_last_props[OF n dd(1)] and pc = py_last_props[OF n dd(2)]
  have card_eq: "\<And>fs p xs. wf_fs fs \<Longrightarrow> distinct xs \<Longrightarrow> set (children fs p) = set xs \<Longrightarrow>
      length (children fs p) = length xs"
    using distinct_children[OF wf_fs_distinct] by (metis distinct_card)
  have lvd2: "length (children (files w2) ?Vd) = n"
    using card_eq[OF wf2 pd(1) vd2] pd(3) dogs(2) by simp
  have lvd: "length (children (files w3) ?Vd) = n"
    using card_eq[OF wf3 pd(1) vd3] pd(3) dogs(2) by simp
  have lvc: "length (children (files w3) ?Vc) = n"
    using card_eq[OF wf3 pc(1) vc3] pc(3) cats(2) by simp
  have res: "make_validation n home w = Inr w3"
    using new mk w2 w3 by (simp add: make_validation_def)
  have ne: "validation_subfolder home ''dog'' \<noteq> []" "train_subfolder home ''dog'' \<noteq> []"
       "validation_subfolder home ''cat'' \<noteq> []" "train_subfolder home ''cat'' \<noteq> []"
    using subfolders_nonempty vn by simp_all
  have l1: "os_listdir (files w3) (validation_subfolder home ''dog'') = Inr (children (files w3) ?Vd)"
    by (rule os_listdir_dir[OF ne(1) sV3d])
  have l2: "os_listdir (files w3) (train_subfolder home ''dog'') = Inr (children (files w3) ?Td)"
    by (rule os_listdir_dir[OF ne(2) sT3d])
  have l3: "os_listdir (files w3) (validation_subfolder home ''cat'') = Inr (children (files w3) ?Vc)"
    by (rule os_listdir_dir[OF ne(3) sV3])
  have l4: "os_listdir (files w3) (train_subfolder home ''cat'') = Inr (children (files w3) ?Tc)"
    by (rule os_listdir_dir[OF ne(4) sT3])
  have ordd: "\<forall>t \<in> set (children (files w3) ?Td). \<forall>v \<in> set (children (files w3) ?Vd). t < v"
    using pd(4) by (simp add: td3 vd3)
  have ordc: "\<forall>t \<in> set (children (files w3) ?Tc). \<forall>v \<in> set (children (files w3) ?Vc). t < v"
    using pc(4) by (simp add: tc3 vc3)
  have out: "stdout w3 = stdout w @
       [Populating (validation_subfolder home ''dog''), Moved n,
        Populating (validation_subfolder home ''cat''), Moved n]"
    using out2 out3 lvd2 lvc by simp
  show ?thesis
    apply (rule exI[of _ w3])
    apply (rule exI[of _ "children (files w3) ?Vd"])
    apply (rule exI[of _ "children (files w3) ?Td"])
    apply (rule exI[of _ "children (files w3) ?Vc"])
    apply (rule exI[of _ "children (files w3) ?Tc"])
    using res l1 l2 l3 l4 lvd lvc vd3 td3 vc3 tc3 ordd ordc out
    apply (simp only: simp_thms)
    done
qed


theorem make_validation_split_witness:
  "wf_fs (files rearranged_example) \<and>
   \<not> op_exists (files rearranged_example) (validation_folder ''/root'') \<and>
   os_listdir (files rearranged_example) (train_subfolder ''/root'' ''dog'') =
     Inr [''dog.1.jpg'', ''dog.10.jpg'', ''dog.9.jpg''] \<and>
   os_listdir (files rearranged_example) (train_subfolder ''/root'' ''cat'') =
     Inr [''cat.1.jpg'', ''cat.10.jpg'', ''cat.9.jpg''] \<and>
   (\<exists>w'. make_validation 2 ''/root'' rearranged_example = Inr w' \<and>
      (\<exists>vd. os_listdir (files w') (validation_subfolder ''/root'' ''dog'') = Inr vd \<and>
         length vd = 2 \<and> set vd = {''dog.10.jpg'', ''dog.9.jpg''}) \<and>
      (\<exists>td. os_listdir (files w') (train_subfolder ''/root'' ''dog'') = Inr td \<and>
         set td = {''dog.1.jpg''}))"
proof -
  have h1: "wf_fs (files rearranged_example)" by code_simp
  have h2: "(0::nat) < 2" by simp
  have h3: "\<not> op_exists (files rearranged_example) (validation_folder ''/root'')" by code_simp
  have h4: "os_listdir (files rearranged_example) (train_subfolder ''/root'' ''dog'') =
     Inr [''dog.1.jpg'', ''dog.10.jpg'', ''dog.9.jpg'']" by code_simp
  have h5: "2 \<le> length [''dog.1.jpg'', ''dog.10.jpg'', ''dog.9.jpg'']" by simp
  have h6: "os_listdir (files rearranged_example) (train_subfolder ''/root'' ''cat'') =
     Inr [''cat.1.jpg'', ''cat.10.jpg'', ''cat.9.jpg'']" by code_simp
  have h7: "2 \<le> length [''cat.1.jpg'', ''cat.10.jpg'', ''cat.9.jpg'']" by simp
  have s: "py_last 2 (sort [''dog.1.jpg'', ''dog.10.jpg'', ''dog.9.jpg'']) = [''dog.10.jpg'', ''dog.9.jpg'']"
    by code_simp
  from make_validation_split[OF h1 h2 h3 h4 h5 h6 h7]
  obtain w' vd td where "make_validation 2 ''/root'' rearranged_example = Inr w'"
     "os_listdir (files w') (validation_subfolder ''/root'' ''dog'') = Inr vd"
     "os_listdir (files w') (train_subfolder ''/root'' ''dog'') = Inr td"
     "length vd = 2" "set vd = set (py_last 2 (sort [''dog.1.jpg'', ''dog.10.jpg'', ''dog.9.jpg'']))"
     "set td = set [''dog.1.jpg'', ''dog.10.jpg'', ''dog.9.jpg''] - set vd"
    by blast
  then have "\<exists>w'. make_validation 2 ''/root'' rearranged_example = Inr w' \<and>
      (\<exists>vd. os_listdir (files w') (validation_subfolder ''/root'' ''dog'') = Inr vd \<and>
         length vd = 2 \<and> set vd = {''dog.10.jpg'', ''dog.9.jpg''}) \<and>
      (\<exists>td. os_listdir (files w') (train_subfolder ''/root'' ''dog'') = Inr td \<and>
         set td = {''dog.1.jpg''})"
    unfolding s by auto
  then show ?thesis using h1 h3 h4 h6 by blast
qed

lemma children_append: "children (xs @ ys) d = children xs d @ children ys d"
  by (simp add: children_def)

lemma children_Cons:
  "children ((p, k) # fs) d = (if p \<noteq> [] \<and> butlast p = d then last p # children fs d else children fs d)"
  by (simp add: children_def)

lemma children_Nil: "children [] d = []"
  by (simp add: children_def)

lemma children_class_files:
  "children (class_files c k) d =
     (if d = [''root'', ''data'', ''dogs-vs-cats'', ''train'', c] then map (image_name c) [0..<k] else [])"
  by (induction k) (auto simp: class_files_def children_def)

text \<open>The example with 500 images per class is a well-formed file system.\<close>

lemma digit_inj: "a < 10 \<Longrightarrow> b < 10 \<Longrightarrow> digit a = digit b \<Longrightarrow> a = b"
proof -
  assume a: "a < 10" "b < 10" "digit a = digit b"
  have d: "distinct ''0123456789''" by simp
  have l: "length ''0123456789'' = 10" by simp
  show ?thesis using a nth_eq_iff_index_eq[OF d, of a b] unfolding digit_def l by blast
qed

lemma digit_not_sep: "a < 10 \<Longrightarrow> digit a \<noteq> CHR ''/''"
proof -
  assume "a < 10"
  then have "digit a \<in> set ''0123456789''" unfolding digit_def by (intro nth_mem) simp
  then show ?thesis by auto
qed

lemma image_name_inj:
  assumes "i < 1000" "j < 1000" "image_name c i = image_name c j"
  shows "i = j"
proof -
  have e: "digit (i div 100) = digit (j div 100)" "digit (i div 10 mod 10) = digit (j div 10 mod 10)"
    "digit (i mod 10) = digit (j mod 10)"
    using assms(3) by (simp_all add: image_name_def)
  have a: "i div 100 = j div 100" using digit_inj[OF _ _ e(1)] assms(1,2) by simp
  have b: "i div 10 mod 10 = j div 10 mod 10" using digit_inj[OF _ _ e(2)] by simp
  have c: "i mod 10 = j mod 10" using digit_inj[OF _ _ e(3)] by simp
  have h: "\<And>n::nat. n div 100 = n div 10 div 10" by (simp add: div_mult2_eq[symmetric])
  have "i div 10 div 10 = j div 10 div 10" using a by (simp only: h)
  then have "i div 10 = j div 10" using b by (metis div_mult_mod_eq)
  then show ?thesis using c by (metis div_mult_mod_eq)
qed

lemma image_name_valid:
  assumes "i < 1000" "valid_name c"
  shows "valid_name (image_name c i)"
proof -
  have "i div 100 < 10" "i div 10 mod 10 < 10" "i mod 10 < 10" using assms(1) by simp_all
  then have "digit (i div 100) \<noteq> CHR ''/''" "digit (i div 10 mod 10) \<noteq> CHR ''/''"
    "digit (i mod 10) \<noteq> CHR ''/''"
    by (simp_all add: digit_not_sep)
  then show ?thesis using assms(2) by (auto simp: image_name_def valid_name_def)
qed

lemma class_files_keys:
  "(p, k) \<in> set (class_files c n) \<longleftrightarrow>
   k = File \<and> (\<exists>i < n. p = [''root'', ''data'', ''dogs-vs-cats'', ''train'', c, image_name c i])"
  by (auto simp: class_files_def)

lemma distinct_class_files:
  assumes "n \<le> 1000"
  shows "distinct (map fst (class_files c n))"
proof -
  let ?f = "\<lambda>i. [''root'', ''data'', ''dogs-vs-cats'', ''train'', c, image_name c i]"
  have m: "map fst (class_files c n) = map ?f [0..<n]"
    by (simp add: class_files_def comp_def)
  have inj: "inj_on ?f (set [0..<n])"
  proof (rule inj_onI)
    fix x y assume "x \<in> set [0..<n]" "y \<in> set [0..<n]" "?f x = ?f y"
    then have "x < 1000" "y < 1000" "image_name c x = image_name c y" using assms by simp_all
    then show "x = y" by (rule image_name_inj)
  qed
  have "distinct (map ?f [0..<n])"
    by (rule distinct_map[THEN iffD2, OF conjI[OF distinct_upt inj]])
  then show ?thesis by (simp only: m)
qed

lemma class_files_key_shape:
  "p \<in> set (map fst (class_files c n)) \<Longrightarrow> length p = 6 \<and> p ! 4 = c"
  by (auto simp: class_files_def)

lemma stat_presplit_class:
  "c = ''dog'' \<or> c = ''cat'' \<Longrightarrow>
   stat (files presplit_example) [''root'', ''data'', ''dogs-vs-cats'', ''train'', c] = Some Dir"
  by (auto simp: stat_def presplit_example_def)

lemma distinct_presplit: "distinct (map fst (files presplit_example))"
proof -
  let ?base = "[([''root''], Dir),
         ([''root'', ''data''], Dir),
         ([''root'', ''data'', ''dogs-vs-cats''], Dir),
         ([''root'', ''data'', ''dogs-vs-cats'', ''train''], Dir),
         ([''root'', ''data'', ''dogs-vs-cats'', ''validation''], Dir),
         ([''root'', ''data'', ''dogs-vs-cats'', ''train'', ''dog''], Dir),
         ([''root'', ''data'', ''dogs-vs-cats'', ''train'', ''cat''], Dir)] :: fs"
  let ?dogs = "class_files ''dog'' 500" and ?cats = "class_files ''cat'' 500"
  have d1: "distinct (map fst ?base)" by simp
  have d2: "distinct (map fst ?dogs)" "distinct (map fst ?cats)"
    by (simp_all add: distinct_class_files)
  have b: "\<And>p. p \<in> set (map fst ?base) \<Longrightarrow> length p \<le> 5" by auto
  have x2: "set (map fst ?dogs) \<inter> set (map fst ?cats) = {}"
  proof (rule ccontr)
    assume "set (map fst ?dogs) \<inter> set (map fst ?cats) \<noteq> {}"
    then obtain p where "p \<in> set (map fst ?dogs)" "p \<in> set (map fst ?cats)" by blast
    then have "p ! 4 = ''dog''" "p ! 4 = ''cat''" using class_files_key_shape by blast+
    then show False by simp
  qed
  have x1: "set (map fst ?base) \<inter> set (map fst (?dogs @ ?cats)) = {}"
  proof (rule ccontr)
    assume "set (map fst ?base) \<inter> set (map fst (?dogs @ ?cats)) \<noteq> {}"
    then obtain p where p: "p \<in> set (map fst ?base)" "p \<in> set (map fst (?dogs @ ?cats))" by blast
    then have "p \<in> set (map fst ?dogs) \<or> p \<in> set (map fst ?cats)" by simp
    then have "length p = 6" using class_files_key_shape by blast
    then show False using b[OF p(1)] by simp
  qed
  have "distinct (map fst (?dogs @ ?cats))"
    unfolding map_append distinct_append using d2 x2 by blast
  then have "distinct (map fst (?base @ ?dogs @ ?cats))"
    unfolding map_append[of fst ?base] distinct_append[of "map fst ?base"] using d1 x1
    unfolding map_append by blast
  then show ?thesis by (simp only: presplit_example_def world.simps)
qed

lemma wf_presplit: "wf_fs (files presplit_example)"
  unfolding wf_fs_def
proof (intro conjI ballI)
  show "distinct (map fst (files presplit_example))" by (rule distinct_presplit)
next
  fix e assume e: "e \<in> set (files presplit_example)"
  obtain p k where pk: "e = (p, k)" by (cases e)
  let ?base = "[([''root''], Dir),
         ([''root'', ''data''], Dir),
         ([''root'', ''data'', ''dogs-vs-cats''], Dir),
         ([''root'', ''data'', ''dogs-vs-cats'', ''train''], Dir),
         ([''root'', ''data'', ''dogs-vs-cats'', ''validation''], Dir),
         ([''root'', ''data'', ''dogs-vs-cats'', ''train'', ''dog''], Dir),
         ([''root'', ''data'', ''dogs-vs-cats'', ''train'', ''cat''], Dir)] :: fs"
  have "(p, k) \<in> set ?base \<or> (p, k) \<in> set (class_files ''dog'' 500) \<or>
      (p, k) \<in> set (class_files ''cat'' 500)"
    using e pk by (simp add: presplit_example_def)
  then have "p \<noteq> [] \<and> list_all valid_name p \<and> stat (files presplit_example) (butlast p) = Some Dir"
  proof (elim disjE)
    assume "(p, k) \<in> set ?base"
    then have "p \<in> {[''root''], [''root'', ''data''], [''root'', ''data'', ''dogs-vs-cats''],
        [''root'', ''data'', ''dogs-vs-cats'', ''train''],
        [''root'', ''data'', ''dogs-vs-cats'', ''validation''],
        [''root'', ''data'', ''dogs-vs-cats'', ''train'', ''dog''],
        [''root'', ''data'', ''dogs-vs-cats'', ''train'', ''cat'']}" by auto
    then show ?thesis
      by (elim insertE emptyE) (simp_all add: stat_def presplit_example_def valid_name_def)
  next
    assume "(p, k) \<in> set (class_files ''dog'' 500)"
    then obtain i where i: "i < 500"
      "p = [''root'', ''data'', ''dogs-vs-cats'', ''train'', ''dog'', image_name ''dog'' i]"
      unfolding class_files_keys by blast
    have "valid_name (image_name ''dog'' i)"
      using i(1) by (intro image_name_valid) (simp_all add: valid_name_def)
    then show ?thesis using i(2) stat_presplit_class[of "''dog''"] by (simp add: valid_name_def)
  next
    assume "(p, k) \<in> set (class_files ''cat'' 500)"
    then obtain i where i: "i < 500"
      "p = [''root'', ''data'', ''dogs-vs-cats'', ''train'', ''cat'', image_name ''cat'' i]"
      unfolding class_files_keys by blast
    have "valid_name (image_name ''cat'' i)"
      using i(1) by (intro image_name_valid) (simp_all add: valid_name_def)
    then show ?thesis using i(2) stat_presplit_class[of "''cat''"] by (simp add: valid_name_def)
  qed
  then show "case e of (p, k) \<Rightarrow> p \<noteq> [] \<and> list_all valid_name p \<and>
      stat (files presplit_example) (butlast p) = Some Dir"
    using pk by simp
qed

text \<open>
  C2 as stated fails: holding at least 500 images per class is not enough. When the
  validation directory is already there, the guard of the cell skips the carve-out
  whatever the directory holds. Here both classes have 500 images in train and the
  validation directory is empty: the cell changes nothing, and afterwards there is no
  validation directory of either class to list.
\<close>

theorem make_validation_skips_existing:
  "wf_fs (files presplit_example) \<and>
   os_listdir (files presplit_example) (train_subfolder ''/root'' ''dog'') = Inr (map (image_name ''dog'') [0..<500]) \<and>
   os_listdir (files presplit_example) (train_subfolder ''/root'' ''cat'') = Inr (map (image_name ''cat'') [0..<500]) \<and>
   length (map (image_name ''dog'') [0..<500]) = 500 \<and>
   length (map (image_name ''cat'') [0..<500]) = 500 \<and>
   make_validation n_validation ''/root'' presplit_example = Inr presplit_example \<and>
   os_listdir (files presplit_example) (validation_subfolder ''/root'' ''dog'') = Inl FileNotFoundError \<and>
   os_listdir (files presplit_example) (validation_subfolder ''/root'' ''cat'') = Inl FileNotFoundError"
proof -
  have c1: "components (train_subfolder ''/root'' ''dog'') = [''root'', ''data'', ''dogs-vs-cats'', ''train'', ''dog'']"
    "components (train_subfolder ''/root'' ''cat'') = [''root'', ''data'', ''dogs-vs-cats'', ''train'', ''cat'']"
    "components (validation_subfolder ''/root'' ''dog'') = [''root'', ''data'', ''dogs-vs-cats'', ''validation'', ''dog'']"
    "components (validation_subfolder ''/root'' ''cat'') = [''root'', ''data'', ''dogs-vs-cats'', ''validation'', ''cat'']"
    "components (validation_folder ''/root'') = [''root'', ''data'', ''dogs-vs-cats'', ''validation'']"
    by code_simp+
  have ne: "train_subfolder ''/root'' ''dog'' \<noteq> []" "train_subfolder ''/root'' ''cat'' \<noteq> []"
    "validation_subfolder ''/root'' ''dog'' \<noteq> []" "validation_subfolder ''/root'' ''cat'' \<noteq> []"
    "validation_folder ''/root'' \<noteq> []"
    by code_simp+
  have mo: "\<And>c k p. map_of (class_files c k) p = Some v \<Longrightarrow> length p = 6"
    by (auto simp: class_files_def dest!: map_of_SomeD)
  have st: "stat (files presplit_example) [''root'', ''data'', ''dogs-vs-cats'', ''train'', ''dog''] = Some Dir"
    "stat (files presplit_example) [''root'', ''data'', ''dogs-vs-cats'', ''train'', ''cat''] = Some Dir"
    "stat (files presplit_example) [''root'', ''data'', ''dogs-vs-cats'', ''validation''] = Some Dir"
    by (simp_all add: presplit_example_def stat_def)
  have none: "\<And>c. stat (files presplit_example) [''root'', ''data'', ''dogs-vs-cats'', ''validation'', c] = None"
    by (auto simp: presplit_example_def stat_def map_add_def class_files_def map_of_eq_None_iff split: option.splits)
  show ?thesis
    using st none ne wf_presplit
    by (simp add: os_listdir_def op_exists_def op_isdir_def c1 make_validation_def)
       (simp add: presplit_example_def children_append children_class_files children_Cons children_Nil)
qed


subsection \<open>Running the organizer twice\<close>

lemma endswith_jpg_dotted: "endswith fn ''.jpg'' \<Longrightarrow> dotted fn"
proof -
  assume e: "endswith fn ''.jpg''"
  then have "drop (length fn - length ''.jpg'') fn = ''.jpg''" unfolding endswith_def by blast
  then have "CHR ''.'' \<in> set (drop (length fn - length ''.jpg'') fn)" by simp
  then show ?thesis unfolding dotted_def by (rule in_set_dropD)
qed

lemma split_dot_dotted:
  "dotted s \<Longrightarrow> \<exists>rest. split_dot s = [takeWhile (\<lambda>c. c \<noteq> CHR ''.'') s, rest]"
proof -
  assume "dotted s"
  then have "dropWhile (\<lambda>c. c \<noteq> CHR ''.'') s \<noteq> []"
    by (auto simp: dotted_def dropWhile_eq_Nil_conv)
  then show ?thesis by (cases "dropWhile (\<lambda>c. c \<noteq> CHR ''.'') s") (auto simp: split_dot_def)
qed

lemma takeWhile_not_dotted: "\<not> dotted (takeWhile (\<lambda>c. c \<noteq> CHR ''.'') s)"
  by (auto simp: dotted_def dest: set_takeWhileD)

lemma comps_chars: "c \<in> set (comps cur s) \<Longrightarrow> set c \<subseteq> set cur \<union> set s"
proof (induction s arbitrary: cur)
  case Nil
  then show ?case by (auto split: if_splits)
next
  case (Cons x s)
  show ?case
  proof (cases "x = CHR ''/''")
    case True
    then have "c = cur \<or> c \<in> set (comps [] s)" using Cons.prems by (auto split: if_splits)
    then show ?thesis using Cons.IH[of "[]"] by auto
  next
    case False
    then have "c \<in> set (comps (cur @ [x]) s)" using Cons.prems by simp
    then show ?thesis using Cons.IH[of "cur @ [x]"] by auto
  qed
qed

lemma components_not_dotted:
  "\<not> dotted s \<Longrightarrow> c \<in> set (components s) \<Longrightarrow> \<not> dotted c"
  using comps_chars[of c "[]" s] by (auto simp: components_def dotted_def)

lemma components_join_rel:
  assumes "b = [] \<or> hd b \<noteq> CHR ''/''"
  shows "components (op_join a b) = components a @ components b"
proof (cases "a = [] \<or> last a = CHR ''/''")
  case True
  then have j: "op_join a b = a @ b" using assms by (auto simp: op_join_def)
  show ?thesis
  proof (cases "a = []")
    case True
    then show ?thesis using j by (simp add: components_def)
  next
    case False
    then obtain a' where a: "a = a' @ [CHR ''/'']" using True by (metis append_butlast_last_id)
    have "components (a @ b) = components a' @ components b"
      using components_append_sep[of a' b] a by simp
    moreover have "components a = components a'"
      using a by (simp add: components_def comps_snoc_sep)
    ultimately show ?thesis using j by simp
  qed
next
  case False
  then have "op_join a b = a @ CHR ''/'' # b" using assms by (auto simp: op_join_def)
  then show ?thesis by (simp add: components_append_sep)
qed

lemma components_join_abs:
  "b \<noteq> [] \<Longrightarrow> hd b = CHR ''/'' \<Longrightarrow> components (op_join a b) = components b"
  by (simp add: op_join_def)

text \<open>
  The directory \<open>rearrange_folders\<close> moves a file to is named by a string without a dot:
  its path has no dotted name, or it lies under the folder through names without a dot.
  So it is never an entry of the folder whose name has a dot.
\<close>

lemma subfolder_shape:
  assumes "\<not> dotted pre"
  shows "(\<forall>c \<in> set (components (op_join folder pre)). \<not> dotted c) \<or>
         (\<exists>cs. components (op_join folder pre) = components folder @ cs \<and> (\<forall>c \<in> set cs. \<not> dotted c))"
proof (cases "pre \<noteq> [] \<and> hd pre = CHR ''/''")
  case True
  then show ?thesis using components_join_abs[of pre folder] components_not_dotted[OF assms] by auto
next
  case False
  then have "components (op_join folder pre) = components folder @ components pre"
    using components_join_rel[of pre folder] by auto
  then show ?thesis using components_not_dotted[OF assms] by blast
qed

lemma subfolder_not_child:
  assumes "\<not> dotted pre" "dotted a"
  shows "components (op_join folder pre) \<noteq> components folder @ [a]"
proof
  assume e: "components (op_join folder pre) = components folder @ [a]"
  from subfolder_shape[OF assms(1), of folder] show False
  proof
    assume "\<forall>c \<in> set (components (op_join folder pre)). \<not> dotted c"
    then show False using e assms(2) by simp
  next
    assume "\<exists>cs. components (op_join folder pre) = components folder @ cs \<and> (\<forall>c \<in> set cs. \<not> dotted c)"
    then show False using e assms(2) by auto
  qed
qed

lemma stat_Some_mem: "wf_fs fs \<Longrightarrow> stat fs p = Some k \<Longrightarrow> p \<noteq> [] \<Longrightarrow> (p, k) \<in> set fs"
  using stat_mem[of fs p k] by simp

lemma wf_under_nondir:
  assumes "wf_fs fs" "stat fs d \<noteq> Some Dir" "stat fs q \<noteq> None" "prefix d q"
  shows "q = d"
proof (cases "q = []")
  case True
  then show ?thesis using assms(4) by simp
next
  case False
  obtain k where "stat fs q = Some k" using assms(3) by auto
  then have "(q, k) \<in> set fs" using stat_Some_mem[OF assms(1)] False by simp
  then show ?thesis using wf_no_descendants[OF assms(1,2) _ assms(4)] by simp
qed

text \<open>
  A rename that succeeds in a well-formed file system, onto a path that is not a
  directory: either nothing moves, or source and destination are incomparable.
\<close>

lemma os_rename_cases:
  assumes wf: "wf_fs fs" and ok: "os_rename fs s d = Inr fs'" and nd: "stat fs d \<noteq> Some Dir"
  shows "(s = d \<and> fs' = fs) \<or>
         (fs' = relocate s d fs \<and> incomparable s d \<and> stat fs s \<noteq> None \<and>
          stat fs (butlast d) = Some Dir)"
proof (cases "s = d")
  case True
  then show ?thesis using ok by (auto simp: os_rename_def split: option.splits)
next
  case False
  from ok obtain k where k: "stat fs s = Some k"
    by (auto simp: os_rename_def split: option.splits)
  have np: "\<not> prefix s d" using ok k False by (auto simp: os_rename_def split: if_splits)
  have par: "stat fs (butlast d) = Some Dir"
    using ok k False np by (auto simp: os_rename_def split: if_splits option.splits node.splits)
  have rel: "fs' = relocate s d fs"
    using ok k False np par nd
    by (auto simp: os_rename_def split: if_splits option.splits node.splits)
  have "\<not> prefix d s"
  proof
    assume "prefix d s"
    then have "s = d" using wf_under_nondir[OF wf nd _ \<open>prefix d s\<close>] k by simp
    then show False using False by simp
  qed
  then have "incomparable s d" using np by (simp add: incomparable_def)
  then show ?thesis using rel k par by simp
qed

lemma shutil_move_cases:
  assumes wf: "wf_fs fs" and ok: "shutil_move fs src dst = Inr fs'" and dne: "dst \<noteq> []"
  shows "(components src = components dst \<and> fs' = fs) \<or>
         (\<exists>d. (d = components dst \<and> stat fs d \<noteq> Some Dir \<or>
               d = components (op_join dst (shutil_basename src)) \<and> stat fs d = None \<and>
                 stat fs (components dst) = Some Dir) \<and>
              fs' = relocate (components src) d fs \<and> incomparable (components src) d \<and>
              stat fs (components src) \<noteq> None \<and> stat fs (butlast d) = Some Dir)"
proof (cases "op_isdir fs dst")
  case True
  show ?thesis
  proof (cases "components src = components dst")
    case same: True
    then have "os_rename fs (components dst) (components dst) = Inr fs'"
      using ok True by (simp add: shutil_move_def)
    then have "fs' = fs" by (auto simp: os_rename_def split: option.splits)
    then show ?thesis using same by simp
  next
    case False
    let ?r = "op_join dst (shutil_basename src)"
    have ne: "\<not> op_exists fs ?r" and rn: "os_rename fs (components src) (components ?r) = Inr fs'"
      using ok True False by (auto simp: shutil_move_def Let_def split: if_splits)
    have rne: "?r \<noteq> []" using dne by (auto simp: op_join_def)
    then have none: "stat fs (components ?r) = None" using ne by (simp add: op_exists_def)
    then have nd: "stat fs (components ?r) \<noteq> Some Dir" by simp
    have dd: "stat fs (components dst) = Some Dir" using True by (simp add: op_isdir_def)
    from os_rename_cases[OF wf rn nd] show ?thesis
    proof
      assume a: "components src = components ?r \<and> fs' = fs"
      then have "stat fs (components src) = None" using none by simp
      then show ?thesis using rn by (simp add: os_rename_def)
    next
      assume "fs' = relocate (components src) (components ?r) fs \<and>
          incomparable (components src) (components ?r) \<and> stat fs (components src) \<noteq> None \<and>
          stat fs (butlast (components ?r)) = Some Dir"
      then show ?thesis using none dd by blast
    qed
  qed
next
  case False
  then have nd: "stat fs (components dst) \<noteq> Some Dir" using dne by (simp add: op_isdir_def)
  have rn: "os_rename fs (components src) (components dst) = Inr fs'"
    using ok False by (simp add: shutil_move_def)
  from os_rename_cases[OF wf rn nd] show ?thesis using nd by blast
qed

text \<open>What such a move keeps: the paths outside the source are still there.\<close>

lemma relocate_preserves:
  assumes wf: "wf_fs fs" and inc: "incomparable s d" and nd: "stat fs d \<noteq> Some Dir"
    and src: "stat fs s \<noteq> None"
  shows "\<And>q. \<not> prefix s q \<Longrightarrow> stat fs q = Some Dir \<Longrightarrow> stat (relocate s d fs) q = Some Dir"
    and "\<And>q. \<not> prefix s q \<Longrightarrow> stat fs q \<noteq> None \<Longrightarrow> stat (relocate s d fs) q \<noteq> None"
    and "\<And>q. \<not> prefix d q \<Longrightarrow> stat (relocate s d fs) q \<noteq> None \<Longrightarrow>
           \<not> prefix s q \<and> stat fs q \<noteq> None"
proof -
  note st = stat_relocate[OF wf inc]
  {
    fix q assume q: "\<not> prefix s q" "stat fs q = Some Dir"
    have "\<not> prefix d q"
    proof
      assume "prefix d q"
      then have "q = d" using wf_under_nondir[OF wf nd _ \<open>prefix d q\<close>] q(2) by simp
      then show False using q(2) nd by simp
    qed
    then show "stat (relocate s d fs) q = Some Dir" using st[of q] q by simp
  }
  {
    fix q assume q: "\<not> prefix s q" "stat fs q \<noteq> None"
    show "stat (relocate s d fs) q \<noteq> None"
    proof (cases "prefix d q")
      case True
      then have "q = d" using wf_under_nondir[OF wf nd q(2) True] by simp
      then show ?thesis using st[of d] src by simp
    next
      case False
      then show ?thesis using st[of q] q by simp
    qed
  }
  {
    fix q assume "\<not> prefix d q" "stat (relocate s d fs) q \<noteq> None"
    then show "\<not> prefix s q \<and> stat fs q \<noteq> None" using st[of q] by (auto split: if_splits)
  }
qed

lemma op_join_nonempty: "a \<noteq> [] \<Longrightarrow> op_join a b \<noteq> []"
  by (auto simp: op_join_def)

lemma op_join_name_dotted: "valid_name fn \<Longrightarrow> dotted fn \<Longrightarrow> dotted (op_join a fn)"
  by (auto simp: op_join_def dotted_def)

text \<open>
  One step of the loop of \<open>rearrange_folders\<close>, when it succeeds: the folder stays
  a directory, the file is no longer an entry of it, no entry with a dotted name
  appears in it, and whatever existed outside the moved file still exists.
\<close>

lemma rearrange_one_ok:
  assumes wf: "wf_fs fs" and fdir: "stat fs (components folder) = Some Dir"
    and fne: "folder \<noteq> []" and vn: "valid_name fn" and dot: "dotted fn"
    and ok: "rearrange_one folder fs (op_join folder fn) = Inr fs'"
  shows "wf_fs fs' \<and> stat fs' (components folder) = Some Dir \<and>
     (\<forall>a. dotted a \<and> stat fs' (components folder @ [a]) \<noteq> None \<longrightarrow>
          a \<noteq> fn \<and> stat fs (components folder @ [a]) \<noteq> None) \<and>
     (\<forall>q. \<not> prefix (components folder @ [fn]) q \<and> stat fs q \<noteq> None \<longrightarrow> stat fs' q \<noteq> None)"
proof -
  let ?F = "components folder"
  let ?src = "op_join folder fn"
  let ?pre = "takeWhile (\<lambda>c. c \<noteq> CHR ''.'') ?src"
  let ?S = "op_join folder ?pre"
  let ?D = "components ?S"
  let ?s = "?F @ [fn]"
  obtain rest where sp: "split_dot ?src = [?pre, rest]"
    using split_dot_dotted[OF op_join_name_dotted[OF vn dot]] by blast
  have npre: "\<not> dotted ?pre" by (rule takeWhile_not_dotted)
  have Sne: "?S \<noteq> []" by (rule op_join_nonempty[OF fne])
  have cs: "components ?src = ?s" by (rule components_join_name[OF vn])
  have notchild: "\<And>a. dotted a \<Longrightarrow> ?D \<noteq> ?F @ [a]"
    using subfolder_not_child[OF npre] by blast
  obtain fs1 where mk: "(if \<not> op_exists fs ?S then os_mkdir fs ?S else Inr fs) = Inr fs1"
    and mv: "shutil_move fs1 ?src ?S = Inr fs'"
    using ok sp by (auto simp: rearrange_one_def Let_def split: sum.splits)
  have wf1: "wf_fs fs1"
    and up: "\<And>q. stat fs q \<noteq> None \<Longrightarrow> stat fs1 q \<noteq> None"
    and updir: "\<And>q. stat fs q = Some Dir \<Longrightarrow> stat fs1 q = Some Dir"
    and down: "\<And>q. stat fs1 q \<noteq> None \<Longrightarrow> q = ?D \<or> stat fs q \<noteq> None"
  proof -
    show "wf_fs fs1" using mk wf os_mkdir_ok(1)[OF wf] by (auto split: if_splits)
    show "\<And>q. stat fs q \<noteq> None \<Longrightarrow> stat fs1 q \<noteq> None"
      using mk os_mkdir_ok(2)[OF wf] by (auto split: if_splits)
    show "\<And>q. stat fs q = Some Dir \<Longrightarrow> stat fs1 q = Some Dir"
      using mk os_mkdir_ok(2)[OF wf] by (auto split: if_splits)
    show "\<And>q. stat fs1 q \<noteq> None \<Longrightarrow> q = ?D \<or> stat fs q \<noteq> None"
      using mk os_mkdir_ok(2)[OF wf] by (auto split: if_splits)
  qed
  have fdir1: "stat fs1 ?F = Some Dir" by (rule updir[OF fdir])
  from shutil_move_cases[OF wf1 mv Sne] show ?thesis
  proof
    assume "components ?src = ?D \<and> fs' = fs1"
    then show ?thesis using cs notchild[OF dot] by simp
  next
    assume "\<exists>d. (d = ?D \<and> stat fs1 d \<noteq> Some Dir \<or>
               d = components (op_join ?S (shutil_basename ?src)) \<and> stat fs1 d = None \<and>
                 stat fs1 ?D = Some Dir) \<and>
              fs' = relocate (components ?src) d fs1 \<and> incomparable (components ?src) d \<and>
              stat fs1 (components ?src) \<noteq> None \<and> stat fs1 (butlast d) = Some Dir"
    then obtain d where raw: "(d = ?D \<and> stat fs1 d \<noteq> Some Dir \<or>
               d = components (op_join ?S (shutil_basename ?src)) \<and> stat fs1 d = None \<and>
                 stat fs1 ?D = Some Dir) \<and>
              fs' = relocate (components ?src) d fs1 \<and> incomparable (components ?src) d \<and>
              stat fs1 (components ?src) \<noteq> None \<and> stat fs1 (butlast d) = Some Dir"
      by blast
    have bn: "components (op_join ?S (shutil_basename ?src)) = ?D @ [fn]"
      by (simp only: basename_join_name[OF vn] components_join_name[OF vn])
    have dcase: "d = ?D \<and> stat fs1 d \<noteq> Some Dir \<or>
               d = ?D @ [fn] \<and> stat fs1 d = None \<and> stat fs1 ?D = Some Dir"
      using raw unfolding bn by blast
    have fs': "fs' = relocate ?s d fs1" and inc: "incomparable ?s d"
      and src: "stat fs1 ?s \<noteq> None" and par: "stat fs1 (butlast d) = Some Dir"
      using raw unfolding cs by blast+
    have nd: "stat fs1 d \<noteq> Some Dir" using dcase by auto
    have dv: "list_all valid_name d" using dcase components_valid[of ?S] vn by auto
    have wf': "wf_fs fs'" unfolding fs' by (rule wf_relocate[OF wf1 inc par dv])
    note pres = relocate_preserves[OF wf1 inc nd src]
    have nsF: "\<not> prefix ?s ?F" by simp
    have F': "stat fs' ?F = Some Dir" unfolding fs' by (rule pres(1)[OF nsF fdir1])
    have ndF: "\<not> prefix d ?F"
    proof
      assume p: "prefix d ?F"
      have "?F = d" using wf_under_nondir[OF wf1 nd _ p] fdir1 by simp
      then show False using nd fdir1 by simp
    qed
    have jpg: "\<forall>a. dotted a \<and> stat fs' (?F @ [a]) \<noteq> None \<longrightarrow>
          a \<noteq> fn \<and> stat fs (?F @ [a]) \<noteq> None"
    proof (intro allI impI)
      fix a assume a: "dotted a \<and> stat fs' (?F @ [a]) \<noteq> None"
      have dne: "d \<noteq> ?F @ [a]"
      proof
        assume e: "d = ?F @ [a]"
        from dcase show False
        proof
          assume "d = ?D \<and> stat fs1 d \<noteq> Some Dir"
          then show False using e notchild[of a] a by simp
        next
          assume "d = ?D @ [fn] \<and> stat fs1 d = None \<and> stat fs1 ?D = Some Dir"
          then have "d = ?s" using e by simp
          then show False using inc by (simp add: incomparable_def)
        qed
      qed
      have "\<not> prefix d (?F @ [a])" using dne ndF by (simp add: prefix_snoc)
      then have r: "\<not> prefix ?s (?F @ [a]) \<and> stat fs1 (?F @ [a]) \<noteq> None"
        using pres(3)[of "?F @ [a]"] a unfolding fs' by blast
      then have "a \<noteq> fn" by auto
      moreover have "stat fs (?F @ [a]) \<noteq> None"
        using down[of "?F @ [a]"] r notchild[of a] a by auto
      ultimately show "a \<noteq> fn \<and> stat fs (?F @ [a]) \<noteq> None" by simp
    qed
    have keep: "\<forall>q. \<not> prefix ?s q \<and> stat fs q \<noteq> None \<longrightarrow> stat fs' q \<noteq> None"
      unfolding fs' using pres(2) up by blast
    show ?thesis using wf' F' jpg keep by blast
  qed
qed

lemma rearrange_loop_ok:
  assumes "wf_fs fs" "stat fs (components folder) = Some Dir" "folder \<noteq> []"
    and "\<forall>fn \<in> set fns. valid_name fn \<and> dotted fn"
    and "rearrange_loop folder fs (map (op_join folder) fns) = Inr fs'"
  shows "wf_fs fs' \<and> stat fs' (components folder) = Some Dir \<and>
     (\<forall>a. dotted a \<and> stat fs' (components folder @ [a]) \<noteq> None \<longrightarrow>
          a \<notin> set fns \<and> stat fs (components folder @ [a]) \<noteq> None) \<and>
     (\<forall>q. (\<forall>fn \<in> set fns. \<not> prefix (components folder @ [fn]) q) \<and> stat fs q \<noteq> None \<longrightarrow>
          stat fs' q \<noteq> None)"
  using assms(1,2,4,5)
proof (induction fns arbitrary: fs)
  case Nil
  then show ?case by simp
next
  case (Cons fn fns)
  obtain fs1 where one: "rearrange_one folder fs (op_join folder fn) = Inr fs1"
    and rest: "rearrange_loop folder fs1 (map (op_join folder) fns) = Inr fs'"
    using Cons.prems(4) by (auto split: sum.splits)
  have vn: "valid_name fn" "dotted fn" using Cons.prems(3) by simp_all
  note s1 = rearrange_one_ok[OF Cons.prems(1,2) assms(3) vn one]
  have p3: "\<forall>fn \<in> set fns. valid_name fn \<and> dotted fn" using Cons.prems(3) by simp
  have wf1: "wf_fs fs1" and d1: "stat fs1 (components folder) = Some Dir"
    and j1: "\<And>a. dotted a \<Longrightarrow> stat fs1 (components folder @ [a]) \<noteq> None \<Longrightarrow>
          a \<noteq> fn \<and> stat fs (components folder @ [a]) \<noteq> None"
    and k1: "\<And>q. \<not> prefix (components folder @ [fn]) q \<Longrightarrow> stat fs q \<noteq> None \<Longrightarrow>
          stat fs1 q \<noteq> None"
    using s1 by blast+
  note s2 = Cons.IH[OF wf1 d1 p3 rest]
  have wf2: "wf_fs fs'" and d2: "stat fs' (components folder) = Some Dir"
    and j2: "\<And>a. dotted a \<Longrightarrow> stat fs' (components folder @ [a]) \<noteq> None \<Longrightarrow>
          a \<notin> set fns \<and> stat fs1 (components folder @ [a]) \<noteq> None"
    and k2: "\<And>q. (\<forall>fn \<in> set fns. \<not> prefix (components folder @ [fn]) q) \<Longrightarrow>
          stat fs1 q \<noteq> None \<Longrightarrow> stat fs' q \<noteq> None"
    using s2 by blast+
  have j: "\<forall>a. dotted a \<and> stat fs' (components folder @ [a]) \<noteq> None \<longrightarrow>
          a \<notin> set (fn # fns) \<and> stat fs (components folder @ [a]) \<noteq> None"
  proof (intro allI impI)
    fix a assume a: "dotted a \<and> stat fs' (components folder @ [a]) \<noteq> None"
    then have x: "a \<notin> set fns" "stat fs1 (components folder @ [a]) \<noteq> None" using j2[of a] by simp_all
    then have "a \<noteq> fn \<and> stat fs (components folder @ [a]) \<noteq> None" using j1[of a] a by simp
    then show "a \<notin> set (fn # fns) \<and> stat fs (components folder @ [a]) \<noteq> None" using x by simp
  qed
  have k: "\<forall>q. (\<forall>fn' \<in> set (fn # fns). \<not> prefix (components folder @ [fn']) q) \<and> stat fs q \<noteq> None \<longrightarrow>
          stat fs' q \<noteq> None"
  proof (intro allI impI)
    fix q assume q: "(\<forall>fn' \<in> set (fn # fns). \<not> prefix (components folder @ [fn']) q) \<and> stat fs q \<noteq> None"
    then have a: "\<not> prefix (components folder @ [fn]) q"
      and b: "\<forall>fn' \<in> set fns. \<not> prefix (components folder @ [fn']) q"
      by (simp_all del: prefix_snoc)
    have "stat fs1 q \<noteq> None" using k1[OF a] q by simp
    then show "stat fs' q \<noteq> None" by (rule k2[OF b])
  qed
  show ?case using wf2 d2 j k by (intro conjI)
qed

lemma rearrange_folders_ok:
  assumes wf: "wf_fs (files w)" and fne: "folder \<noteq> []"
    and ok: "rearrange_folders folder w = Inr w'"
  shows "wf_fs (files w') \<and> stat (files w') (components folder) = Some Dir \<and>
     (\<forall>a \<in> set (children (files w') (components folder)). \<not> endswith a ''.jpg'') \<and>
     (\<forall>q. \<not> prefix (components folder) q \<and> stat (files w) q \<noteq> None \<longrightarrow>
          stat (files w') q \<noteq> None)"
proof -
  let ?F = "components folder"
  let ?names = "children (files w) ?F"
  let ?fns = "filter (\<lambda>fn. endswith fn ''.jpg'') ?names"
  from ok obtain names where ls: "os_listdir (files w) folder = Inr names"
    by (auto simp: rearrange_folders_def split: sum.splits)
  note l = os_listdir_Inr[OF ls]
  have names: "names = ?names" and fdir: "stat (files w) ?F = Some Dir" using l by simp_all
  show ?thesis
  proof (cases "?fns = []")
    case True
    then have "w' = w" using ok ls names by (simp add: rearrange_folders_def)
    moreover have "\<forall>a \<in> set ?names. \<not> endswith a ''.jpg''"
      using True by (simp add: filter_empty_conv)
    ultimately show ?thesis using wf fdir by simp
  next
    case False
    then obtain fs' where lp: "rearrange_loop folder (files w) (map (op_join folder) ?fns) = Inr fs'"
      and w': "files w' = fs'"
      using ok ls names by (auto simp: rearrange_folders_def Let_def split: sum.splits)
    have vd: "\<forall>fn \<in> set ?fns. valid_name fn \<and> dotted fn"
      using wf_valid_children[OF wf] endswith_jpg_dotted by auto
    note r = rearrange_loop_ok[OF wf fdir fne vd lp]
    have wf': "wf_fs fs'" and d': "stat fs' ?F = Some Dir"
      and j: "\<And>a. dotted a \<Longrightarrow> stat fs' (?F @ [a]) \<noteq> None \<Longrightarrow>
          a \<notin> set ?fns \<and> stat (files w) (?F @ [a]) \<noteq> None"
      and k: "\<And>q. (\<forall>fn \<in> set ?fns. \<not> prefix (?F @ [fn]) q) \<Longrightarrow> stat (files w) q \<noteq> None \<Longrightarrow>
          stat fs' q \<noteq> None"
      using r by blast+
    have nojpg: "\<forall>a \<in> set (children fs' ?F). \<not> endswith a ''.jpg''"
    proof
      fix a assume a: "a \<in> set (children fs' ?F)"
      show "\<not> endswith a ''.jpg''"
      proof
        assume e: "endswith a ''.jpg''"
        have "stat fs' (?F @ [a]) \<noteq> None" using a children_stat[OF wf'] by simp
        then have x: "a \<notin> set ?fns" "stat (files w) (?F @ [a]) \<noteq> None"
          using j[OF endswith_jpg_dotted[OF e]] by simp_all
        then have "a \<in> set ?names" using children_stat[OF wf] by simp
        then show False using x(1) e by simp
      qed
    qed
    have keep: "\<forall>q. \<not> prefix ?F q \<and> stat (files w) q \<noteq> None \<longrightarrow> stat fs' q \<noteq> None"
    proof (intro allI impI)
      fix q assume q: "\<not> prefix ?F q \<and> stat (files w) q \<noteq> None"
      then have "\<forall>fn \<in> set ?fns. \<not> prefix (?F @ [fn]) q" by (auto dest: append_prefixD)
      then show "stat fs' q \<noteq> None" using k q by blast
    qed
    show ?thesis using wf' d' nojpg keep w' by simp
  qed
qed

lemma populate_class_pre:
  assumes wf: "wf_fs (files w)" and c: "valid_name c"
    and ok: "populate_class n home w c = Inr w'"
  shows "stat (files w) (components (validation_folder home)) = Some Dir"
    and "stat (files w) (components (validation_subfolder home c)) = None"
    and "stat (files w) (components (train_subfolder home c)) = Some Dir"
proof -
  let ?Vs = "validation_subfolder home c" and ?Ts = "train_subfolder home c"
  from ok obtain fs1 names where mk: "os_mkdir (files w) ?Vs = Inr fs1"
    and ls: "os_listdir fs1 ?Ts = Inr names"
    by (auto simp: populate_class_def Let_def split: sum.splits)
  have bl: "butlast (components ?Vs) = components (validation_folder home)"
    by (simp add: components_subfolders[OF c] components_folders butlast_append)
  show "stat (files w) (components ?Vs) = None" by (rule os_mkdir_ok(3)[OF wf mk])
  show "stat (files w) (components (validation_folder home)) = Some Dir"
    using mk bl by (auto simp: os_mkdir_def Let_def split: if_splits option.splits node.splits)
  have "components ?Ts \<noteq> components ?Vs" by (simp add: components_subfolders[OF c])
  then show "stat (files w) (components ?Ts) = Some Dir"
    using os_listdir_Inr[OF ls] os_mkdir_ok(2)[OF wf mk, of "components ?Ts"] by simp
qed

lemma populate_class_frame:
  assumes wf: "wf_fs (files w)" and c: "valid_name c" and n: "0 < n"
    and ok: "populate_class n home w c = Inr w'"
  shows "wf_fs (files w')"
    and "\<And>q. \<not> prefix (components (train_subfolder home c)) q \<Longrightarrow>
           \<not> prefix (components (validation_subfolder home c)) q \<Longrightarrow>
           stat (files w') q = stat (files w) q"
proof -
  note p = populate_class_pre[OF wf c ok]
  from populate_class_ok[OF wf c n p] ok
  show "wf_fs (files w')"
    and "\<And>q. \<not> prefix (components (train_subfolder home c)) q \<Longrightarrow>
           \<not> prefix (components (validation_subfolder home c)) q \<Longrightarrow>
           stat (files w') q = stat (files w) q"
    by auto
qed

lemma make_validation_organized:
  assumes wf: "wf_fs (files w)" and n: "0 < n"
    and fdir: "stat (files w) (components (train_folder home)) = Some Dir"
    and nojpg: "\<forall>a \<in> set (children (files w) (components (train_folder home))). \<not> endswith a ''.jpg''"
    and ok: "make_validation n home w = Inr w'"
  shows "organized home w'"
proof -
  let ?F = "components (train_folder home)"
  let ?Vb = "components (validation_folder home)"
  have tne: "train_folder home \<noteq> []" "validation_folder home \<noteq> []"
    by (simp_all add: train_folder_def validation_folder_def op_join_name_nonempty valid_name_literals)
  show ?thesis
  proof (cases "op_exists (files w) (validation_folder home)")
    case True
    then have "w' = w" using ok by (simp add: make_validation_def)
    then show ?thesis
      using True fdir nojpg tne by (simp add: organized_def op_isdir_def filter_empty_conv)
  next
    case False
    then obtain fs1 where mk: "os_mkdir (files w) (validation_folder home) = Inr fs1"
      and pc: "populate_classes n home (w\<lparr>files := fs1\<rparr>) [''dog'', ''cat''] = Inr w'"
      using ok by (auto simp: make_validation_def split: sum.splits)
    let ?w1 = "w\<lparr>files := fs1\<rparr>"
    from pc obtain w2 where d: "populate_class n home ?w1 ''dog'' = Inr w2"
      and c: "populate_class n home w2 ''cat'' = Inr w'"
      by (auto split: sum.splits)
    note m = os_mkdir_ok[OF wf mk]
    have wf1: "wf_fs (files ?w1)" using m(1) by simp
    note vn = valid_name_literals
    note f2 = populate_class_frame[OF wf1 vn(3) n d]
    note f3 = populate_class_frame[OF f2(1) vn(4) n c]
    note cs = components_subfolders[OF vn(3)] components_subfolders[OF vn(4)] components_folders
    have st: "\<And>q. \<not> prefix (components (train_subfolder home ''dog'')) q \<Longrightarrow>
                 \<not> prefix (components (validation_subfolder home ''dog'')) q \<Longrightarrow>
                 \<not> prefix (components (train_subfolder home ''cat'')) q \<Longrightarrow>
                 \<not> prefix (components (validation_subfolder home ''cat'')) q \<Longrightarrow>
                 stat (files w') q = (if q = ?Vb then Some Dir else stat (files w) q)"
      using f2(2) f3(2) m(2) by simp
    have F': "stat (files w') ?F = Some Dir"
      using st[of ?F] fdir by (simp add: cs)
    have V': "stat (files w') ?Vb = Some Dir"
      using st[of ?Vb] by (simp add: cs)
    have ch: "\<forall>a \<in> set (children (files w') ?F). \<not> endswith a ''.jpg''"
    proof
      fix a assume a: "a \<in> set (children (files w') ?F)"
      show "\<not> endswith a ''.jpg''"
      proof
        assume e: "endswith a ''.jpg''"
        then have ne: "a \<noteq> ''dog''" "a \<noteq> ''cat''" by (auto simp: endswith_def)
        have "stat (files w') (?F @ [a]) = stat (files w) (?F @ [a])"
          using st[of "?F @ [a]"] ne by (simp add: cs)
        then have "a \<in> set (children (files w) ?F)"
          using a children_stat[OF f3(1)] children_stat[OF wf] by simp
        then show False using nojpg e by simp
      qed
    qed
    show ?thesis
      using F' V' ch tne by (simp add: organized_def op_isdir_def op_exists_def filter_empty_conv)
  qed
qed

text \<open>
  A run that succeeds ends in an organized state, so a second run changes nothing.
  The archive is only asked to unpack into a well-formed file system.
\<close>

lemma organize_ends_organized:
  assumes wf: "wf_fs (files w)"
    and pres: "\<forall>z d fs fs'. wf_fs fs \<and> extractall z d fs = Inr fs' \<longrightarrow> wf_fs fs'"
    and ok: "organize extractall home w = Inr w'"
  shows "organized home w' \<and> organize extractall home w' = Inr w'"
proof -
  from ok obtain w1 w2 where e: "extract_train extractall home w = Inr w1"
    and r: "rearrange_folders (train_folder home) w1 = Inr w2"
    and v: "make_validation n_validation home w2 = Inr w'"
    by (auto simp: organize_def split: sum.splits)
  have wf1: "wf_fs (files w1)"
    using e wf pres by (auto simp: extract_train_def Let_def split: if_splits sum.splits)
  have tne: "train_folder home \<noteq> []"
    by (simp add: train_folder_def op_join_name_nonempty valid_name_literals)
  note rr = rearrange_folders_ok[OF wf1 tne r]
  have n: "0 < n_validation" by (simp add: n_validation_def)
  have org: "organized home w'"
    using make_validation_organized[OF _ n _ _ v] rr by blast
  then have "organize extractall home w' = Inr w'"
    by (simp add: organized_def organize_def extract_train_def rearrange_folders_def
      make_validation_def os_listdir_def op_isdir_exists)
  then show ?thesis using org by simp
qed

lemma organized_noop:
  "organized home w \<Longrightarrow> organize extractall home w = Inr w"
  by (simp add: organized_def organize_def extract_train_def rearrange_folders_def
      make_validation_def os_listdir_def op_isdir_exists)

text \<open>
  C3. On an organized data directory (the train directory is there, none of its entries
  ends in \<^verbatim>\<open>.jpg\<close>, the validation directory is there) the three cells do nothing:
  the result is the state they started from, file system and output alike, so nothing is
  extracted, no directory is made, no file is moved, nothing is printed, and no error is
  raised; this holds for every home directory and every archive. And a run that
  succeeds on a well-formed file system leaves the data directory organized, so that
  running the organizer again returns the very state the first run produced.
\<close>

theorem organize_twice:
  "(organized home w \<longrightarrow> organize extractall home w = Inr w) \<and>
   (wf_fs (files w) \<and>
    (\<forall>z d fs fs'. wf_fs fs \<and> extractall z d fs = Inr fs' \<longrightarrow> wf_fs fs') \<and>
    organize extractall home w = Inr w' \<longrightarrow>
      organized home w' \<and> organize extractall home w' = Inr w')"
  using organized_noop[of home w extractall] organize_ends_organized[of w extractall home w']
  by blast

theorem organize_twice_witness:
  "organized ''/root'' organized_example \<and>
   organize broken_archive ''/root'' organized_example = Inr organized_example \<and>
   wf_fs (files flat_example) \<and>
   organize broken_archive ''/root'' flat_example = Inr flat_result \<and>
   organized ''/root'' flat_result \<and>
   organize broken_archive ''/root'' flat_result = Inr flat_result"
proof -
  have h1: "organized ''/root'' organized_example" by code_simp
  have h2: "wf_fs (files flat_example)" by code_simp
  have h3: "\<forall>z d fs fs'. wf_fs fs \<and> broken_archive z d fs = Inr fs' \<longrightarrow> wf_fs fs'"
    by (simp add: broken_archive_def)
  have r: "organize broken_archive ''/root'' flat_example = Inr flat_result" by code_simp
  note t1 = organize_twice[of "''/root''" organized_example broken_archive organized_example]
  note t2 = organize_twice[of "''/root''" flat_example broken_archive flat_result]
  have "organize broken_archive ''/root'' organized_example = Inr organized_example"
    using t1 h1 by blast
  moreover have "organized ''/root'' flat_result \<and>
      organize broken_archive ''/root'' flat_result = Inr flat_result"
    using t2 h2 h3 r by blast
  ultimately show ?thesis using h1 h2 r by blast
qed

end
